theory Spec2Isabelle
  imports Main "HOL-Library.AList"
begin

section \<open>The file system the server works on\<close>

text \<open>
  Both servers (\<^verbatim>\<open>server/index.js\<close>, \<^verbatim>\<open>server/index-improved.js\<close>) and the third
  variant of \<^verbatim>\<open>index.js\<close> keep their artifacts under \<^verbatim>\<open>runs/<id>/\<close> and reach
  the disk through the synchronous calls of Node's \<^verbatim>\<open>fs\<close> module. The disk is modelled
  as a finite tree. A path is the list of its segments (what \<^verbatim>\<open>path.join\<close> glues
  together); a directory is the list of its entries in the order \<^verbatim>\<open>readdirSync\<close>
  reports them. \<open>Denied\<close> is a directory with content that the server has no
  permission on: it can be seen from its parent (\<^verbatim>\<open>statSync\<close> works and says it is
  a directory) but every call that has to look inside fails with \<^verbatim>\<open>EACCES\<close>. Every
  call that throws in Node returns \<open>Inl\<close> here.
\<close>

type_synonym path = "string list"

datatype fsnode = File string | Dir "(string \<times> fsnode) list" | Denied

datatype fs_error = ENOENT | ENOTDIR | EACCES | EISDIR | EEXIST

fun lookup :: "fsnode \<Rightarrow> path \<Rightarrow> fs_error + fsnode" where
  "lookup n [] = Inr n"
| "lookup (Dir es) (x # p) =
     (case map_of es x of None \<Rightarrow> Inl ENOENT | Some c \<Rightarrow> lookup c p)"
| "lookup (File c) (x # p) = Inl ENOTDIR"
| "lookup Denied (x # p) = Inl EACCES"

text \<open>\<^verbatim>\<open>fs.existsSync(p)\<close>: true when the path resolves, false on every error.\<close>

definition existsSync :: "fsnode \<Rightarrow> path \<Rightarrow> bool" where
  "existsSync root p = (case lookup root p of Inl e \<Rightarrow> False | Inr n \<Rightarrow> True)"

text \<open>\<^verbatim>\<open>stat.isDirectory()\<close> of an entry that \<^verbatim>\<open>statSync\<close> has reached.\<close>

fun isDirectory :: "fsnode \<Rightarrow> bool" where
  "isDirectory (File c) = False"
| "isDirectory (Dir es) = True"
| "isDirectory Denied = True"

text \<open>\<^verbatim>\<open>fs.mkdirSync(p, { recursive: true })\<close>: creates the missing directories of the
  path; an existing directory is left as it is; a file in the way is an error.\<close>

fun mkdirSync :: "fsnode \<Rightarrow> path \<Rightarrow> fs_error + fsnode" where
  "mkdirSync (Dir es) [] = Inr (Dir es)"
| "mkdirSync Denied [] = Inr Denied"
| "mkdirSync (File c) [] = Inl EEXIST"
| "mkdirSync (Dir es) (x # p) =
     (case map_of es x of
        None \<Rightarrow> (case mkdirSync (Dir []) p of
                   Inl e \<Rightarrow> Inl e
                 | Inr c \<Rightarrow> Inr (Dir (es @ [(x, c)])))
      | Some c \<Rightarrow> (case mkdirSync c p of
                   Inl e \<Rightarrow> Inl e
                 | Inr c' \<Rightarrow> Inr (Dir (AList.update x c' es))))"
| "mkdirSync (File c) (x # p) = Inl ENOTDIR"
| "mkdirSync Denied (x # p) = Inl EACCES"

text \<open>\<^verbatim>\<open>fs.writeFileSync(p, data)\<close>: the parent directory must exist, the target must
  not be a directory; an existing file is overwritten.\<close>

fun writeFileSync :: "fsnode \<Rightarrow> path \<Rightarrow> string \<Rightarrow> fs_error + fsnode" where
  "writeFileSync (File c) [] d = Inr (File d)"
| "writeFileSync (Dir es) [] d = Inl EISDIR"
| "writeFileSync Denied [] d = Inl EISDIR"
| "writeFileSync (Dir es) (x # p) d =
     (case map_of es x of
        None \<Rightarrow> (if p = [] then Inr (Dir (es @ [(x, File d)])) else Inl ENOENT)
      | Some c \<Rightarrow> (case writeFileSync c p d of
                   Inl e \<Rightarrow> Inl e
                 | Inr c' \<Rightarrow> Inr (Dir (AList.update x c' es))))"
| "writeFileSync (File c) (x # p) d = Inl ENOTDIR"
| "writeFileSync Denied (x # p) d = Inl EACCES"

text \<open>A subtree can be removed when the server may open every directory in it.\<close>

fun removable :: "fsnode \<Rightarrow> bool"
  and removable_entries :: "(string \<times> fsnode) list \<Rightarrow> bool" where
  "removable (File c) = True"
| "removable (Dir es) = removable_entries es"
| "removable Denied = False"
| "removable_entries [] = True"
| "removable_entries (e # es) = (removable (snd e) \<and> removable_entries es)"

text \<open>\<^verbatim>\<open>fs.rmSync(p, { recursive: true, force: true })\<close>: a path that does not exist is
  not an error (\<^verbatim>\<open>force\<close>); the whole subtree goes. A removal that fails is modelled
  as leaving the tree as it was: the entries Node may already have unlinked before it
  met the failure are not tracked. Removing the root itself is refused.\<close>

fun rmSync :: "fsnode \<Rightarrow> path \<Rightarrow> fs_error + fsnode" where
  "rmSync n [] = Inl EACCES"
| "rmSync (Dir es) [x] =
     (case map_of es x of
        None \<Rightarrow> Inr (Dir es)
      | Some c \<Rightarrow> (if removable c then Inr (Dir (AList.delete x es)) else Inl EACCES))"
| "rmSync (Dir es) (x # y # p) =
     (case map_of es x of
        None \<Rightarrow> Inr (Dir es)
      | Some c \<Rightarrow> (case rmSync c (y # p) of
                   Inl e \<Rightarrow> Inl e
                 | Inr c' \<Rightarrow> Inr (Dir (AList.update x c' es))))"
| "rmSync (File c) (x # p) = Inl ENOTDIR"
| "rmSync Denied (x # p) = Inl EACCES"

text \<open>\<^verbatim>\<open>fs.cpSync(src, dest, { recursive: true, force: true })\<close>: the source tree is
  merged into the destination, files of the same name are overwritten. \<open>cpNode\<close> is
  given the source node and what is at the destination now. A copy that fails is
  modelled as leaving the tree as it was: what Node has already written before it met
  the failure is not tracked.\<close>

fun cpNode :: "fsnode \<Rightarrow> fsnode option \<Rightarrow> fs_error + fsnode"
  and cpEntries :: "(string \<times> fsnode) list \<Rightarrow> (string \<times> fsnode) list \<Rightarrow> fs_error + fsnode" where
  "cpNode (File c) None = Inr (File c)"
| "cpNode (File c) (Some (File d)) = Inr (File c)"
| "cpNode (File c) (Some (Dir ds)) = Inl EISDIR"
| "cpNode (File c) (Some Denied) = Inl EISDIR"
| "cpNode Denied dst = Inl EACCES"
| "cpNode (Dir es) None = cpEntries es []"
| "cpNode (Dir es) (Some (Dir ds)) = cpEntries es ds"
| "cpNode (Dir es) (Some (File d)) = Inl ENOTDIR"
| "cpNode (Dir es) (Some Denied) = Inl EACCES"
| "cpEntries [] ds = Inr (Dir ds)"
| "cpEntries (e # es) ds =
     (case cpNode (snd e) (map_of ds (fst e)) of
        Inl err \<Rightarrow> Inl err
      | Inr c \<Rightarrow> cpEntries es (AList.update (fst e) c ds))"

text \<open>Putting a node at a path. The directories of the path that are missing are made
  on the way: \<^verbatim>\<open>fs.cpSync\<close> makes the parent of its destination
  (\<^verbatim>\<open>mkdirSync(destParent, { recursive: true })\<close>) before it copies.\<close>

fun putNode :: "fsnode \<Rightarrow> path \<Rightarrow> fsnode \<Rightarrow> fs_error + fsnode" where
  "putNode n [] c = Inr c"
| "putNode (Dir es) (x # p) c =
     (case map_of es x of
        None \<Rightarrow> (case putNode (Dir []) p c of
                   Inl e \<Rightarrow> Inl e
                 | Inr n' \<Rightarrow> Inr (Dir (es @ [(x, n')])))
      | Some n \<Rightarrow> (case putNode n p c of
                   Inl e \<Rightarrow> Inl e
                 | Inr n' \<Rightarrow> Inr (Dir (AList.update x n' es))))"
| "putNode (File d) (x # p) c = Inl ENOTDIR"
| "putNode Denied (x # p) c = Inl EACCES"

definition cpSync :: "fsnode \<Rightarrow> path \<Rightarrow> path \<Rightarrow> fs_error + fsnode" where
  "cpSync root src dst =
     (case lookup root src of
        Inl e \<Rightarrow> Inl e
      | Inr s \<Rightarrow>
          (case cpNode s (case lookup root dst of Inl e \<Rightarrow> None | Inr d \<Rightarrow> Some d) of
             Inl e \<Rightarrow> Inl e
           | Inr c \<Rightarrow> putNode root dst c))"


section \<open>Strings, numbers and the two regular expressions of \<^verbatim>\<open>broadcast\<close>\<close>

text \<open>
  A JavaScript string is modelled as a \<^typ>\<open>string\<close>. Every pattern of the source looks
  at ASCII characters only, and without the \<^verbatim>\<open>u\<close> flag a character outside ASCII never
  matches an ASCII letter under \<^verbatim>\<open>/i\<close>, so nothing depends on how the other characters
  are encoded.
\<close>

definition ESC :: char where
  "ESC = CHR 0x1B"

definition LF :: char where
  "LF = CHR 0x0A"

text \<open>\<^verbatim>\<open>[0-9;]\<close> and \<^verbatim>\<open>[a-zA-Z]\<close>.\<close>

definition isParam :: "char \<Rightarrow> bool" where
  "isParam c = (c \<in> set ''0123456789;'')"

definition isLetter :: "char \<Rightarrow> bool" where
  "isLetter c = (c \<in> set ''abcdefghijklmnopqrstuvwxyzABCDEFGHIJKLMNOPQRSTUVWXYZ'')"

text \<open>
  One attempt to match \<^verbatim>\<open>/\x1B\[[0-9;]*[a-zA-Z]/\<close> (\<open>q = False\<close>) or
  \<^verbatim>\<open>/\x1B\[[\?]?[0-9;]*[a-zA-Z]/\<close> (\<open>q = True\<close>) at the head of a string; the result
  is what follows the match. The parameter characters and the letters are disjoint, and a
  \<^verbatim>\<open>?\<close> is neither, so the greedy match is the only one: backtracking never finds
  another.
\<close>

fun matchCsi :: "bool \<Rightarrow> string \<Rightarrow> string option" where
  "matchCsi q (e # b # r) =
     (if e = ESC \<and> b = CHR ''[''
      then (case dropWhile isParam (if q \<and> r \<noteq> [] \<and> hd r = CHR ''?'' then tl r else r) of
              [] \<Rightarrow> None
            | c # t \<Rightarrow> (if isLetter c then Some t else None))
      else None)"
| "matchCsi q [e] = None"
| "matchCsi q [] = None"

lemma matchCsi_shorter: "matchCsi q s = Some r \<Longrightarrow> length r < length s"
proof -
  assume m: "matchCsi q s = Some r"
  then obtain e b t where s: "s = e # b # t"
    by (cases s; cases "tl s") auto
  let ?u = "if q \<and> t \<noteq> [] \<and> hd t = CHR ''?'' then tl t else t"
  from s m obtain c where dw: "dropWhile isParam ?u = c # r"
    by (auto split: if_splits list.splits)
  have "length (dropWhile isParam ?u) \<le> length ?u"
    by (rule length_dropWhile_le)
  moreover have "length ?u \<le> length t"
    by simp
  ultimately show ?thesis
    using s dw by simp
qed

text \<open>\<^verbatim>\<open>data.replace(re, '')\<close> with the \<^verbatim>\<open>g\<close> flag: every match, scanning from the
  left, is dropped, and the scan goes on after the match.\<close>

function replaceCsi :: "bool \<Rightarrow> string \<Rightarrow> string" where
  "replaceCsi q [] = []"
| "replaceCsi q (c # cs) =
     (case matchCsi q (c # cs) of
        Some rest \<Rightarrow> replaceCsi q rest
      | None \<Rightarrow> c # replaceCsi q cs)"
  by pat_completeness auto
termination
  by (relation "measure (\<lambda>(q, s). length s)") (auto dest: matchCsi_shorter)

text \<open>\<^verbatim>\<open>cleanData\<close> of \<^verbatim>\<open>broadcast\<close> in \<^verbatim>\<open>index.js\<close>.\<close>

definition cleanData :: "string \<Rightarrow> string" where
  "cleanData d = replaceCsi True (replaceCsi False d)"

text \<open>\<^verbatim>\<open>code.toString()\<close> of an integer exit code: its decimal digits.\<close>

definition digit :: "nat \<Rightarrow> char" where
  "digit d = char_of (48 + d)"

function digits :: "nat \<Rightarrow> string" where
  "digits n = (if n < 10 then [digit n] else digits (n div 10) @ [digit (n mod 10)])"
  by pat_completeness auto
termination
  by (relation "measure (\<lambda>n. n)") auto

definition toString :: "int \<Rightarrow> string" where
  "toString i = (if i < 0 then CHR ''-'' # digits (nat (- i)) else digits (nat i))"

text \<open>\<^verbatim>\<open>s.endsWith(suffix)\<close>, \<^verbatim>\<open>s.toLowerCase()\<close> on ASCII letters, and the
  test \<^verbatim>\<open>/\.cy\.(js|ts|mjs)$/i\<close> of the upload's name.\<close>

definition endsWith :: "string \<Rightarrow> string \<Rightarrow> bool" where
  "endsWith s suffix = (length suffix \<le> length s \<and> drop (length s - length suffix) s = suffix)"

definition lowerChar :: "char \<Rightarrow> char" where
  "lowerChar c = (let n = (of_char c :: nat) in if 65 \<le> n \<and> n \<le> 90 then char_of (n + 32) else c)"

definition toLowerCase :: "string \<Rightarrow> string" where
  "toLowerCase s = map lowerChar s"

definition isSpecName :: "string \<Rightarrow> bool" where
  "isSpecName name =
     (endsWith (toLowerCase name) ''.cy.js'' \<or> endsWith (toLowerCase name) ''.cy.ts''
      \<or> endsWith (toLowerCase name) ''.cy.mjs'')"


section \<open>Runs, subscribers and the state of the server\<close>

datatype status = Queued | Running | Done | Failed

definition status_str :: "status \<Rightarrow> string" where
  "status_str st = (case st of Queued \<Rightarrow> ''queued'' | Running \<Rightarrow> ''running''
                    | Done \<Rightarrow> ''done'' | Failed \<Rightarrow> ''failed'')"

text \<open>The object stored by \<^verbatim>\<open>runs.set(runId, { id, createdAt, status, baseUrl, filename,
  paths: { runPath, workPath } })\<close>; \<open>createdAt\<close> is the time value of the
  \<^verbatim>\<open>Date\<close> in milliseconds.\<close>

record run =
  run_id :: string
  createdAt :: int
  status :: status
  baseUrl :: "string option"
  filename :: string
  runPath :: path
  workPath :: path

text \<open>A subscriber is the response object \<^verbatim>\<open>res\<close> of a stream request; only its
  identity matters.\<close>

type_synonym client = nat

text \<open>A call of \<^verbatim>\<open>runCypress\<close> that waits at \<^verbatim>\<open>await findConfigFile(...)\<close>, and a
  child process made by \<^verbatim>\<open>spawn\<close>. Both hold the \<^verbatim>\<open>run\<close> object the call looked up
  (its address in the store below) and the \<^verbatim>\<open>runId\<close>, as the closures of the source
  do. \<open>palive\<close> is true until the process has emitted \<^verbatim>\<open>'close'\<close>.\<close>

record task =
  trun :: nat
  trunId :: string
  tcmd :: "string list"

record proc =
  prun :: nat
  prunId :: string
  pargs :: "string list"
  pcwd :: path
  palive :: bool

text \<open>
  The state: \<open>runs\<close> and \<open>clients\<close> are the two \<^verbatim>\<open>Map\<close>s of the source, in
  insertion order. A run object is shared between the registry and the closures of
  \<^verbatim>\<open>runCypress\<close>, so the objects live in a store (\<open>heap\<close>) and the registry holds
  addresses. \<open>sent\<close> and \<open>ended\<close> record the calls \<^verbatim>\<open>client.write(text)\<close> and
  \<^verbatim>\<open>client.end()\<close> in the order they were made; \<open>timers\<close> are the pending
  \<^verbatim>\<open>setTimeout\<close> callbacks and \<open>scheduled\<close> the pending \<^verbatim>\<open>setImmediate\<close> ones.
\<close>

record server =
  runs :: "(string \<times> nat) list"
  heap :: "run list"
  clients :: "(string \<times> client list) list"
  fs :: fsnode
  sent :: "(client \<times> string) list"
  ended :: "client list"
  awaiting :: "task list"
  procs :: "proc list"
  timers :: "string list"
  scheduled :: "string list"

definition init_server :: "fsnode \<Rightarrow> server" where
  "init_server root = \<lparr> runs = [], heap = [], clients = [], fs = root, sent = [], ended = [],
     awaiting = [], procs = [], timers = [], scheduled = [] \<rparr>"

text \<open>What the code can throw. \<open>SpawnError\<close> is what \<^verbatim>\<open>spawn\<close> itself, or the awaited
  lookup of the configuration file, throws, with its \<^verbatim>\<open>message\<close>.\<close>

datatype js_error = FsError fs_error | TypeError | ZipError | UnhandledErrorEvent string
  | SpawnError string

text \<open>What a handler answers: \<^verbatim>\<open>res.json({ ok: true, runId, stream })\<close>,
  \<^verbatim>\<open>res.status(n).json({ ok: false, error })\<close>, or the head of an event stream
  (\<^verbatim>\<open>res.writeHead(200, ...)\<close>).\<close>

datatype reply = Started string string | ErrorJson nat string | EventStream

fun http_status :: "reply \<Rightarrow> nat" where
  "http_status (Started runId stream) = 200"
| "http_status (ErrorJson n msg) = n"
| "http_status EventStream = 200"

text \<open>\<^verbatim>\<open>runs.get(runId)\<close>, and \<^verbatim>\<open>clients.get(runId) || []\<close>.\<close>

definition get_run :: "server \<Rightarrow> string \<Rightarrow> nat option" where
  "get_run s runId = map_of (runs s) runId"

definition runClients :: "server \<Rightarrow> string \<Rightarrow> client list" where
  "runClients s runId = (case map_of (clients s) runId of None \<Rightarrow> [] | Some cs \<Rightarrow> cs)"

text \<open>\<^verbatim>\<open>run.status = st\<close> on the object at address \<open>a\<close>.\<close>

definition set_status :: "server \<Rightarrow> nat \<Rightarrow> status \<Rightarrow> server" where
  "set_status s a st = s\<lparr> heap := (heap s)[a := (heap s ! a)\<lparr> status := st \<rparr>] \<rparr>"

text \<open>The directory \<^verbatim>\<open>path.join(__dirname, '../runs')\<close>; the image of the Dockerfile
  puts the server in \<^verbatim>\<open>/app/server\<close>.\<close>

definition runsDir :: path where
  "runsDir = [''app'', ''runs'']"

definition path_str :: "path \<Rightarrow> string" where
  "path_str p = concat (map (\<lambda>seg. ''/'' @ seg) p)"

text \<open>The run id: \<^verbatim>\<open>new Date().toISOString().replace(/[:.]/g, '-')\<close>, a dash and
  \<^verbatim>\<open>nanoid(6)\<close>. The ISO text and the random suffix come from the environment.\<close>

definition mk_runId :: "string \<Rightarrow> string \<Rightarrow> string" where
  "mk_runId stamp nano =
     map (\<lambda>c. if c = CHR '':'' \<or> c = CHR ''.'' then CHR ''-'' else c) stamp @ ''-'' @ nano"

section \<open>\<^verbatim>\<open>server/index.js\<close>\<close>

subsection \<open>The live feed\<close>

text \<open>\<^verbatim>\<open>app.get('/runs/:id/stream')\<close> of \<^verbatim>\<open>index.js\<close> (lines 106-118): the head is
  written and the response is pushed on the subscriber list of the id, which is made
  when absent. The registry is not consulted.\<close>

definition stream_index :: "server \<Rightarrow> string \<Rightarrow> client \<Rightarrow> server \<times> reply" where
  "stream_index s runId res =
     (let cl = (if map_of (clients s) runId = None
                then AList.update runId [] (clients s) else clients s)
      in (s\<lparr> clients := AList.update runId (runClients (s\<lparr> clients := cl \<rparr>) runId @ [res]) cl \<rparr>,
          EventStream))"

text \<open>The \<^verbatim>\<open>req.on('close')\<close> listener of the stream request (lines 119-122).\<close>

definition stream_closed :: "server \<Rightarrow> string \<Rightarrow> client \<Rightarrow> server" where
  "stream_closed s runId res =
     s\<lparr> clients := AList.update runId (filter (\<lambda>c. c \<noteq> res) (runClients s runId)) (clients s) \<rparr>"

text \<open>\<^verbatim>\<open>broadcast(runId, data)\<close> of \<^verbatim>\<open>index.js\<close> (lines 125-130).\<close>

definition sse :: "string \<Rightarrow> string" where
  "sse msg = ''data: '' @ msg @ [LF, LF]"

definition broadcast_index :: "server \<Rightarrow> string \<Rightarrow> string \<Rightarrow> server" where
  "broadcast_index s runId d =
     s\<lparr> sent := sent s @ map (\<lambda>client. (client, sse (cleanData d))) (runClients s runId) \<rparr>"


subsection \<open>Statements that reach the disk one after the other\<close>

text \<open>A block of \<^verbatim>\<open>fs\<close> statements runs in order and stops at the first one that
  throws; what the earlier ones did stays done.\<close>

fun run_ops :: "(fsnode \<Rightarrow> fs_error + fsnode) list \<Rightarrow> fsnode \<Rightarrow> fsnode \<times> fs_error option" where
  "run_ops [] f = (f, None)"
| "run_ops (op # ops) f = (case op f of Inl e \<Rightarrow> (f, Some e) | Inr f' \<Rightarrow> run_ops ops f')"

subsection \<open>\<^verbatim>\<open>runCypress\<close> (lines 132-204)\<close>

definition videosFolder :: "run \<Rightarrow> path" where
  "videosFolder r = runPath r @ [''cypress'', ''videos'']"

definition screenshotsFolder :: "run \<Rightarrow> path" where
  "screenshotsFolder r = runPath r @ [''cypress'', ''screenshots'']"

definition resultsFolder :: "run \<Rightarrow> path" where
  "resultsFolder r = runPath r @ [''results'']"

text \<open>The three \<^verbatim>\<open>fs.mkdirSync(..., { recursive: true })\<close> of \<^verbatim>\<open>runCypress\<close>.\<close>

definition make_dirs :: "run \<Rightarrow> (fsnode \<Rightarrow> fs_error + fsnode) list" where
  "make_dirs r =
     [\<lambda>f. mkdirSync f (videosFolder r),
      \<lambda>f. mkdirSync f (screenshotsFolder r),
      \<lambda>f. mkdirSync f (resultsFolder r)]"

text \<open>\<^verbatim>\<open>if (run.baseUrl)\<close>: a field that is absent or empty is falsy.\<close>

definition truthy :: "string option \<Rightarrow> bool" where
  "truthy v = (case v of None \<Rightarrow> False | Some b \<Rightarrow> b \<noteq> [])"

definition cypressCommand_index :: "run \<Rightarrow> string list" where
  "cypressCommand_index r =
     [''run'',
      ''--project'', path_str (workPath r),
      ''--browser'', ''chrome'',
      ''--headless'',
      ''--config'', ''videosFolder='' @ path_str (videosFolder r)
                     @ '',screenshotsFolder='' @ path_str (screenshotsFolder r),
      ''--reporter'', ''json'',
      ''--reporter-options'', ''output='' @ path_str (resultsFolder r @ [''results.json''])]
     @ (if truthy (baseUrl r) then [''--config'', ''baseUrl='' @ the (baseUrl r)] else [])"

text \<open>\<^verbatim>\<open>findConfigFile(workPath)\<close>: the first of five names that \<^verbatim>\<open>glob\<close> finds. The
  pattern is a plain path, so \<^verbatim>\<open>glob\<close> finds it exactly when it exists. The five
  awaited lookups are read from one state of the disk.\<close>

definition configFiles :: "string list" where
  "configFiles = [''cypress.config.mjs'', ''cypress.config.ts'', ''cypress.config.js'',
                  ''cypress.config.cjs'', ''cypress.json'']"

definition findConfigFile :: "fsnode \<Rightarrow> path \<Rightarrow> string option" where
  "findConfigFile root wp =
     (case filter (\<lambda>file. existsSync root (wp @ [file])) configFiles of
        [] \<Rightarrow> None
      | file # rest \<Rightarrow> Some (path_str (wp @ [file])))"

text \<open>
  The part of \<^verbatim>\<open>runCypress\<close> that runs at once, up to \<^verbatim>\<open>await\<close> (lines 133-158):
  the run is looked up and written to without a check, so an unknown id is a
  \<^verbatim>\<open>TypeError\<close>; the status becomes \<^verbatim>\<open>'running'\<close>; three directories are made; the
  command line is put together. The call then waits for \<^verbatim>\<open>findConfigFile\<close>.
\<close>

definition runCypress_begin_index :: "server \<Rightarrow> string \<Rightarrow> server \<times> js_error option" where
  "runCypress_begin_index s runId =
     (case get_run s runId of
        None \<Rightarrow> (s, Some TypeError)
      | Some a \<Rightarrow>
          (let s1 = set_status s a Running;
               r = heap s1 ! a;
               made = run_ops (make_dirs r) (fs s1)
           in case snd made of
                Some e \<Rightarrow> (s1\<lparr> fs := fst made \<rparr>, Some (FsError e))
              | None \<Rightarrow>
                  (s1\<lparr> fs := fst made,
                       awaiting := awaiting s1 @
                         [\<lparr> trun = a, trunId = runId, tcmd = cypressCommand_index r \<rparr>] \<rparr>,
                   None)))"

text \<open>
  The rest of \<^verbatim>\<open>runCypress\<close>, when the awaited lookup has answered (lines 159-203):
  the command line is completed, the process is spawned in the work directory and the
  listeners for \<^verbatim>\<open>stdout\<close>, \<^verbatim>\<open>stderr\<close> and \<^verbatim>\<open>'close'\<close> are attached. \<^verbatim>\<open>spawn\<close>
  itself does not throw when the executable is missing: the child emits \<^verbatim>\<open>'error'\<close>
  later. It does throw, at once and before a process exists, for a command line it
  refuses (an argument with a NUL character, a list too long for the system; the
  \<^verbatim>\<open>baseUrl\<close> of the request is copied into the command line), and the awaited lookup
  can reject. \<open>thrown\<close> is what the environment makes of the two: \<open>None\<close> when the
  process was made. Nothing of \<^verbatim>\<open>index.js\<close> catches the exception: the call of
  \<^verbatim>\<open>runCypress\<close> ends with it, and the status stays as it was written. \<open>i\<close> says
  which waiting call goes on.
\<close>

definition runCypress_spawn_index :: "server \<Rightarrow> nat \<Rightarrow> js_error option \<Rightarrow> server \<times> js_error option" where
  "runCypress_spawn_index s i thrown =
     (if i < length (awaiting s)
      then (let t = awaiting s ! i;
                r = heap s ! trun t;
                cmd = tcmd t @
                  (case findConfigFile (fs s) (workPath r) of
                     Some configFile \<Rightarrow> [''--config-file'', configFile]
                   | None \<Rightarrow> [''--spec'',
                       path_str (workPath r @ [''cypress'', ''e2e'', ''**'', ''*.cy.*''])])
            in case thrown of
                 Some e \<Rightarrow>
                   (s\<lparr> awaiting := take i (awaiting s) @ drop (Suc i) (awaiting s) \<rparr>, Some e)
               | None \<Rightarrow>
                   (s\<lparr> awaiting := take i (awaiting s) @ drop (Suc i) (awaiting s),
                       procs := procs s @
                         [\<lparr> prun = trun t, prunId = trunId t, pargs = cmd,
                            pcwd = workPath r, palive = True \<rparr>] \<rparr>, None))
      else (s, None))"

text \<open>
  The \<^verbatim>\<open>'close'\<close> listener (lines 177-203). The exit code is \<^verbatim>\<open>null\<close> when a signal
  ended the process; then \<^verbatim>\<open>code === 0\<close> is false and \<^verbatim>\<open>code.toString()\<close> is a
  \<^verbatim>\<open>TypeError\<close>, thrown after the status has been written. \<open>collect_index\<close> is the
  block that writes \<^verbatim>\<open>exit-code.txt\<close> and copies the artifacts of the work directory
  (lines 179-195).
\<close>

definition collect_index :: "run \<Rightarrow> int \<Rightarrow> (fsnode \<Rightarrow> fs_error + fsnode) list" where
  "collect_index r c =
     (let workVideos = workPath r @ [''cypress'', ''videos''];
          workScreenshots = workPath r @ [''cypress'', ''screenshots''];
          targetVideos = runPath r @ [''cypress'', ''videos''];
          targetScreenshots = runPath r @ [''cypress'', ''screenshots'']
      in [\<lambda>f. writeFileSync f (runPath r @ [''exit-code.txt'']) (toString c),
          \<lambda>f. if existsSync f workVideos
               then cpSync f workVideos targetVideos else Inr f,
          \<lambda>f. if existsSync f workScreenshots
               then cpSync f workScreenshots targetScreenshots else Inr f])"

definition onClose_index :: "server \<Rightarrow> nat \<Rightarrow> int option \<Rightarrow> server \<times> js_error option" where
  "onClose_index s pid code =
     (let p = procs s ! pid;
          a = prun p;
          runId = prunId p;
          s1 = (set_status s a (if code = Some 0 then Done else Failed))
                 \<lparr> procs := (procs s)[pid := p\<lparr> palive := False \<rparr>] \<rparr>;
          r = heap s1 ! a
      in case code of
           None \<Rightarrow> (s1, Some TypeError)
         | Some c \<Rightarrow>
             (let wrote = run_ops (collect_index r c) (fs s1)
              in case snd wrote of
                   Some e \<Rightarrow> (s1\<lparr> fs := fst wrote \<rparr>, Some (FsError e))
                 | None \<Rightarrow>
                     (let s2 = broadcast_index (s1\<lparr> fs := fst wrote \<rparr>) runId
                                 (''RUN_DONE status='' @ status_str (status r)
                                  @ '' code='' @ toString c)
                      in (s2\<lparr> timers := timers s2 @ [runId] \<rparr>, None))))"

text \<open>The callback of \<^verbatim>\<open>setTimeout(..., 250)\<close> (lines 198-202); \<open>i\<close> says which
  pending timer fires.\<close>

definition end_clients :: "server \<Rightarrow> nat \<Rightarrow> server" where
  "end_clients s i =
     (if i < length (timers s)
      then (let runId = timers s ! i
            in s\<lparr> ended := ended s @ runClients s runId,
                  clients := AList.delete runId (clients s),
                  timers := take i (timers s) @ drop (Suc i) (timers s) \<rparr>)
      else s)"


subsection \<open>\<^verbatim>\<open>app.post('/start')\<close> (lines 29-71)\<close>

text \<open>The uploaded file as \<^verbatim>\<open>multer\<close> hands it over; \<^verbatim>\<open>originalname\<close> is a base
  name, without directories.\<close>

record upload =
  originalname :: string
  buffer :: string

text \<open>The text written to \<^verbatim>\<open>cypress.config.cjs\<close> (the indentation of the template
  literal is left out).\<close>

definition cypressConfigContent :: "bool \<Rightarrow> string" where
  "cypressConfigContent video =
     ''const { defineConfig } = require('' @ [CHR 0x27] @ ''cypress'' @ [CHR 0x27] @ '');'' @ [LF, LF]
     @ ''module.exports = defineConfig({'' @ [LF]
     @ ''e2e: {'' @ [LF]
     @ ''specPattern: '' @ [CHR 0x27] @ ''cypress/e2e/**/*.cy.*'' @ [CHR 0x27] @ '','' @ [LF]
     @ ''supportFile: false,'' @ [LF]
     @ ''video: '' @ (if video then ''true'' else ''false'') @ '','' @ [LF]
     @ ''},'' @ [LF]
     @ ''});'' @ [LF]"

text \<open>The single-spec branch: the spec goes to \<^verbatim>\<open>work/cypress/e2e/<name>\<close>, a
  configuration file is written beside \<^verbatim>\<open>cypress/\<close>.\<close>

definition write_spec :: "path \<Rightarrow> upload \<Rightarrow> bool \<Rightarrow> (fsnode \<Rightarrow> fs_error + fsnode) list" where
  "write_spec wp file video =
     [\<lambda>f. mkdirSync f (wp @ [''cypress'', ''e2e'']),
      \<lambda>f. writeFileSync f (wp @ [''cypress'', ''e2e'', originalname file]) (buffer file),
      \<lambda>f. writeFileSync f (wp @ [''cypress.config.cjs'']) (cypressConfigContent video)]"

text \<open>\<^verbatim>\<open>runs.set(runId, { ..., status: 'queued', ... })\<close>: a new object is made and the
  registry entry of the id points to it.\<close>

definition register_run ::
  "server \<Rightarrow> string \<Rightarrow> int \<Rightarrow> string option \<Rightarrow> string \<Rightarrow> path \<Rightarrow> path \<Rightarrow> server" where
  "register_run s runId now bu name rp wp =
     s\<lparr> heap := heap s @
            [\<lparr> run_id = runId, createdAt = now, status = Queued, baseUrl = bu,
               filename = name, runPath = rp, workPath = wp \<rparr>],
         runs := AList.update runId (length (heap s)) (runs s) \<rparr>"

definition invalidType :: string where
  "invalidType = ''Invalid file type. Please upload a .zip or a .cy.{js,ts,mjs} file.''"

text \<open>
  The handler. \<open>unzip\<close> stands for \<^verbatim>\<open>new AdmZip(buffer).extractAllTo(workPath, true)\<close>
  of the \<^verbatim>\<open>adm-zip\<close> package: given the bytes, the directory and the disk it gives the
  disk after the extraction, or throws. \<open>stamp\<close>, \<open>now\<close> and \<open>nano\<close> are what
  \<^verbatim>\<open>toISOString()\<close>, \<^verbatim>\<open>new Date()\<close> and \<^verbatim>\<open>nanoid(6)\<close> give. The result is the state,
  the answer if one was sent, and the exception if one was thrown. \<^verbatim>\<open>runCypress(runId)\<close>
  is called directly, so its first part runs inside the handler (\<open>accept_index\<close>,
  lines 65-70).
\<close>

definition accept_index ::
  "server \<Rightarrow> string \<Rightarrow> int \<Rightarrow> string option \<Rightarrow> string \<Rightarrow> path \<Rightarrow> path
     \<Rightarrow> server \<times> reply option \<times> js_error option" where
  "accept_index s runId now bu name rp wp =
     (let s1 = register_run s runId now bu name rp wp;
          began = runCypress_begin_index s1 runId
      in (fst began, Some (Started runId (''/runs/'' @ runId @ ''/stream'')), snd began))"

definition start_index ::
  "(string \<Rightarrow> path \<Rightarrow> fsnode \<Rightarrow> js_error + fsnode) \<Rightarrow> server \<Rightarrow> upload option \<Rightarrow> string option
     \<Rightarrow> string \<Rightarrow> int \<Rightarrow> string \<Rightarrow> server \<times> reply option \<times> js_error option" where
  "start_index unzip s upl bu stamp now nano =
     (case upl of
        None \<Rightarrow> (s, None, Some TypeError)
      | Some file \<Rightarrow>
          (let runId = mk_runId stamp nano;
               rp = runsDir @ [runId];
               wp = rp @ [''work''];
               made = run_ops [\<lambda>f. mkdirSync f rp, \<lambda>f. mkdirSync f wp] (fs s)
           in case snd made of
                Some e \<Rightarrow> (s\<lparr> fs := fst made \<rparr>, None, Some (FsError e))
              | None \<Rightarrow>
                  (let isZip = endsWith (originalname file) ''.zip'';
                       isSpec = isSpecName (originalname file)
                   in if isZip
                      then (case unzip (buffer file) wp (fst made) of
                              Inl e \<Rightarrow> (s\<lparr> fs := fst made \<rparr>, None, Some e)
                            | Inr f \<Rightarrow>
                                accept_index (s\<lparr> fs := f \<rparr>) runId now bu (originalname file) rp wp)
                      else if isSpec
                      then (let wrote = run_ops (write_spec wp file True) (fst made)
                            in case snd wrote of
                                 Some e \<Rightarrow> (s\<lparr> fs := fst wrote \<rparr>, None, Some (FsError e))
                               | None \<Rightarrow>
                                   accept_index (s\<lparr> fs := fst wrote \<rparr>) runId now bu
                                     (originalname file) rp wp)
                      else (s\<lparr> fs := fst made \<rparr>, Some (ErrorJson 400 invalidType), None))))"

subsection \<open>The artifact queries (lines 217-271)\<close>

text \<open>
  \<^verbatim>\<open>walkDir(dir, baseUrl)\<close>: \<^verbatim>\<open>readdirSync\<close> lists the directory, \<^verbatim>\<open>statSync\<close> looks
  at each entry; a directory is walked in turn, a file is kept when its name passes the
  test. Nothing is caught, so the first call that throws ends the walk.
\<close>

fun walkDir :: "(string \<Rightarrow> bool) \<Rightarrow> fsnode \<Rightarrow> string \<Rightarrow> fs_error + string list"
  and walkEntries :: "(string \<Rightarrow> bool) \<Rightarrow> (string \<times> fsnode) list \<Rightarrow> string \<Rightarrow> fs_error + string list" where
  "walkDir keep (Dir es) base = walkEntries keep es base"
| "walkDir keep (File c) base = Inl ENOTDIR"
| "walkDir keep Denied base = Inl EACCES"
| "walkEntries keep [] base = Inr []"
| "walkEntries keep (e # es) base =
     (if isDirectory (snd e)
      then (case walkDir keep (snd e) (base @ ''/'' @ fst e) of
              Inl err \<Rightarrow> Inl err
            | Inr found \<Rightarrow>
                (case walkEntries keep es base of
                   Inl err \<Rightarrow> Inl err
                 | Inr others \<Rightarrow> Inr (found @ others)))
      else (case walkEntries keep es base of
              Inl err \<Rightarrow> Inl err
            | Inr others \<Rightarrow> Inr (if keep (fst e) then (base @ ''/'' @ fst e) # others else others)))"

text \<open>\<^verbatim>\<open>/\.mp4$/i\<close> and \<^verbatim>\<open>/\.(png|jpg|jpeg)$/i\<close>.\<close>

definition isVideo :: "string \<Rightarrow> bool" where
  "isVideo name = endsWith (toLowerCase name) ''.mp4''"

definition isImage :: "string \<Rightarrow> bool" where
  "isImage name = (endsWith (toLowerCase name) ''.png'' \<or> endsWith (toLowerCase name) ''.jpg''
                   \<or> endsWith (toLowerCase name) ''.jpeg'')"

definition getRunVideos :: "server \<Rightarrow> string \<Rightarrow> fs_error + string list" where
  "getRunVideos s runId =
     (case get_run s runId of
        None \<Rightarrow> Inr []
      | Some a \<Rightarrow>
          (let videosPath = runPath (heap s ! a) @ [''cypress'', ''videos'']
           in if \<not> existsSync (fs s) videosPath then Inr []
              else (case lookup (fs s) videosPath of
                      Inl e \<Rightarrow> Inl e
                    | Inr dir \<Rightarrow> walkDir isVideo dir (''/videos/'' @ runId @ ''/cypress/videos''))))"

definition getRunScreenshots :: "server \<Rightarrow> string \<Rightarrow> fs_error + string list" where
  "getRunScreenshots s runId =
     (case get_run s runId of
        None \<Rightarrow> Inr []
      | Some a \<Rightarrow>
          (let screenshotsPath = runPath (heap s ! a) @ [''cypress'', ''screenshots'']
           in if \<not> existsSync (fs s) screenshotsPath then Inr []
              else (case lookup (fs s) screenshotsPath of
                      Inl e \<Rightarrow> Inl e
                    | Inr dir \<Rightarrow>
                        walkDir isImage dir (''/screenshots/'' @ runId @ ''/cypress/screenshots''))))"

text \<open>\<^verbatim>\<open>getRunResults\<close> gives \<^verbatim>\<open>null\<close> (\<open>None\<close>) or the public location; it calls
  nothing that throws.\<close>

definition getRunResults :: "server \<Rightarrow> string \<Rightarrow> string option" where
  "getRunResults s runId =
     (case get_run s runId of
        None \<Rightarrow> None
      | Some a \<Rightarrow>
          (let resultsPath = runPath (heap s ! a) @ [''results'', ''results.json'']
           in if \<not> existsSync (fs s) resultsPath then None
              else Some (''/results/'' @ runId @ ''/results/results.json'')))"


subsection \<open>The events of \<^verbatim>\<open>index.js\<close>\<close>

text \<open>
  Node runs one callback at a time, to its end. An event is a request, the answer to an
  awaited call, something a child process emits, or a timer. A child emits
  \<^verbatim>\<open>'close'\<close> once and nothing after it; an event of a process that is not alive, of a
  waiting call or of a timer that does not exist cannot happen and leaves the state as
  it is. \<open>Query\<close> stands for the requests that only read (\<^verbatim>\<open>/health\<close>, \<^verbatim>\<open>/runs\<close>,
  \<^verbatim>\<open>/runs/:id\<close> and the static files).

  \<^verbatim>\<open>index.js\<close> attaches no listener for \<^verbatim>\<open>'error'\<close> to the child process. An
  \<^verbatim>\<open>'error'\<close> event without a listener is thrown by the emitter, and nothing of the
  program catches it.
\<close>

datatype event =
    PostStart "upload option" "string option" string int string
  | GetStream string client
  | StreamClosed string client
  | Query
  | Resume nat "js_error option"
  | ProcStdout nat string
  | ProcStderr nat string
  | ProcError nat string
  | ProcClose nat "int option"
  | TimerFired nat

definition live :: "server \<Rightarrow> nat \<Rightarrow> bool" where
  "live s pid = (pid < length (procs s) \<and> palive (procs s ! pid))"

definition step_index ::
  "(string \<Rightarrow> path \<Rightarrow> fsnode \<Rightarrow> js_error + fsnode) \<Rightarrow> server \<Rightarrow> event \<Rightarrow> server \<times> js_error option" where
  "step_index unzip s ev =
     (case ev of
        PostStart upl bu stamp now nano \<Rightarrow>
          (let r = start_index unzip s upl bu stamp now nano in (fst r, snd (snd r)))
      | GetStream runId res \<Rightarrow> (fst (stream_index s runId res), None)
      | StreamClosed runId res \<Rightarrow> (stream_closed s runId res, None)
      | Query \<Rightarrow> (s, None)
      | Resume i thrown \<Rightarrow> runCypress_spawn_index s i thrown
      | ProcStdout pid d \<Rightarrow>
          (if live s pid then (broadcast_index s (prunId (procs s ! pid)) d, None) else (s, None))
      | ProcStderr pid d \<Rightarrow>
          (if live s pid then (broadcast_index s (prunId (procs s ! pid)) d, None) else (s, None))
      | ProcError pid msg \<Rightarrow>
          (if live s pid then (s, Some (UnhandledErrorEvent msg)) else (s, None))
      | ProcClose pid code \<Rightarrow>
          (if live s pid then onClose_index s pid code else (s, None))
      | TimerFired i \<Rightarrow> (end_clients s i, None))"

text \<open>The states the server can be in: it starts with an empty registry on some disk,
  and every event takes it to the next state. A state after an exception is kept too, so
  nothing is assumed about what Node does with the exception.\<close>

inductive reachable_index ::
  "(string \<Rightarrow> path \<Rightarrow> fsnode \<Rightarrow> js_error + fsnode) \<Rightarrow> server \<Rightarrow> bool"
  for unzip :: "string \<Rightarrow> path \<Rightarrow> fsnode \<Rightarrow> js_error + fsnode" where
  reach_init: "reachable_index unzip (init_server root)"
| reach_step: "reachable_index unzip s \<Longrightarrow> reachable_index unzip (fst (step_index unzip s ev))"

section \<open>The variant of \<^verbatim>\<open>index.js\<close> with the deployment fixes (\<^verbatim>\<open>src/unnamed/part_002\<close>)\<close>

text \<open>The text of an exception (\<^verbatim>\<open>error.message\<close>); the wording is Node's and the
  library's, only the error code is kept here.\<close>

definition fs_code :: "fs_error \<Rightarrow> string" where
  "fs_code e = (case e of ENOENT \<Rightarrow> ''ENOENT'' | ENOTDIR \<Rightarrow> ''ENOTDIR'' | EACCES \<Rightarrow> ''EACCES''
                | EISDIR \<Rightarrow> ''EISDIR'' | EEXIST \<Rightarrow> ''EEXIST'')"

definition message :: "js_error \<Rightarrow> string" where
  "message e = (case e of FsError c \<Rightarrow> fs_code c | TypeError \<Rightarrow> ''TypeError''
                | ZipError \<Rightarrow> ''Invalid or unsupported zip format''
                | UnhandledErrorEvent m \<Rightarrow> m
                | SpawnError m \<Rightarrow> m)"

text \<open>The \<^verbatim>\<open>catch\<close> of the handler (lines 116-119):
  \<^verbatim>\<open>res.status(500).json({ ok: false, error: error.message || 'Internal server error' })\<close>.\<close>

definition caught_500 :: "string \<Rightarrow> reply" where
  "caught_500 msg = ErrorJson 500 (if msg = [] then ''Internal server error'' else msg)"

text \<open>
  \<^verbatim>\<open>app.post('/start')\<close> (lines 57-120). The differences to \<^verbatim>\<open>index.js\<close>: a missing
  file is answered with 400; every exception is caught and answered with 500; the
  \<^verbatim>\<open>.zip\<close> test ignores case; \<^verbatim>\<open>runCypress\<close> is handed to \<^verbatim>\<open>setImmediate\<close>.
\<close>

definition start_fixed ::
  "(string \<Rightarrow> path \<Rightarrow> fsnode \<Rightarrow> js_error + fsnode) \<Rightarrow> server \<Rightarrow> upload option \<Rightarrow> string option
     \<Rightarrow> string \<Rightarrow> int \<Rightarrow> string \<Rightarrow> server \<times> reply" where
  "start_fixed unzip s upl bu stamp now nano =
     (case upl of
        None \<Rightarrow> (s, ErrorJson 400 ''No file uploaded'')
      | Some file \<Rightarrow>
          (let runId = mk_runId stamp nano;
               rp = runsDir @ [runId];
               wp = rp @ [''work''];
               made = run_ops [\<lambda>f. mkdirSync f rp, \<lambda>f. mkdirSync f wp] (fs s)
           in case snd made of
                Some e \<Rightarrow>
                  (s\<lparr> fs := fst made \<rparr>,
                   caught_500 (''Failed to create run directories: '' @ message (FsError e)))
              | None \<Rightarrow>
                  (let isZip = endsWith (toLowerCase (originalname file)) ''.zip'';
                       isSpec = isSpecName (originalname file)
                   in if isZip
                      then (case unzip (buffer file) wp (fst made) of
                              Inl e \<Rightarrow> (s\<lparr> fs := fst made \<rparr>, caught_500 (message e))
                            | Inr f \<Rightarrow>
                                ((register_run (s\<lparr> fs := f \<rparr>) runId now bu (originalname file) rp wp)
                                   \<lparr> scheduled := scheduled s @ [runId] \<rparr>,
                                 Started runId (''/runs/'' @ runId @ ''/stream'')))
                      else if isSpec
                      then (let wrote = run_ops (write_spec wp file True) (fst made)
                            in case snd wrote of
                                 Some e \<Rightarrow> (s\<lparr> fs := fst wrote \<rparr>, caught_500 (message (FsError e)))
                               | None \<Rightarrow>
                                   ((register_run (s\<lparr> fs := fst wrote \<rparr>) runId now bu
                                       (originalname file) rp wp)
                                      \<lparr> scheduled := scheduled s @ [runId] \<rparr>,
                                    Started runId (''/runs/'' @ runId @ ''/stream'')))
                      else (s\<lparr> fs := fst made \<rparr>, ErrorJson 400 invalidType))))"


section \<open>\<^verbatim>\<open>server/index-improved.js\<close>\<close>

text \<open>The settings of \<^verbatim>\<open>config.js\<close> that the modelled functions read.
  \<^verbatim>\<open>maxRunsRetention\<close> is \<^verbatim>\<open>parseInt(process.env.MAX_RUNS_RETENTION || '50', 10)\<close>:
  an integer, or \<^verbatim>\<open>NaN\<close> when the variable does not start with a number.\<close>

datatype jsnum = NaN | Num int

record config =
  maxRunsRetention :: jsnum
  browser :: string
  videoEnabled :: bool

subsection \<open>The live feed (lines 238-278)\<close>

text \<open>\<^verbatim>\<open>app.get('/runs/:id/stream')\<close>: an id that the registry does not have is
  answered with 404; from there on the handler is the one of \<^verbatim>\<open>index.js\<close>.\<close>

definition stream_improved :: "server \<Rightarrow> string \<Rightarrow> client \<Rightarrow> server \<times> reply" where
  "stream_improved s runId res =
     (if get_run s runId = None then (s, ErrorJson 404 ''Run not found'')
      else stream_index s runId res)"

text \<open>\<^verbatim>\<open>broadcast(runId, data)\<close>: the text is written as it comes. (The child is
  started with \<^verbatim>\<open>NO_COLOR=1\<close> in its environment instead.) A write to a response
  is recorded and does not throw here, so the \<^verbatim>\<open>try\<close> around \<^verbatim>\<open>client.write\<close> has
  no second branch.\<close>

definition broadcast_improved :: "server \<Rightarrow> string \<Rightarrow> string \<Rightarrow> server" where
  "broadcast_improved s runId d =
     s\<lparr> sent := sent s @ map (\<lambda>client. (client, sse d)) (runClients s runId) \<rparr>"

subsection \<open>\<^verbatim>\<open>runCypress\<close> (lines 281-372)\<close>

text \<open>\<^verbatim>\<open>xs.indexOf(x)\<close> and \<^verbatim>\<open>xs.splice(i, 0, x)\<close>.\<close>

fun indexOf :: "'a list \<Rightarrow> 'a \<Rightarrow> int" where
  "indexOf [] x = - 1"
| "indexOf (y # ys) x =
     (if x = y then 0 else (let i = indexOf ys x in if i < 0 then - 1 else i + 1))"

definition splice_in :: "'a list \<Rightarrow> int \<Rightarrow> 'a \<Rightarrow> 'a list" where
  "splice_in xs i x = take (nat i) xs @ [x] @ drop (nat i) xs"

definition cypressCommand_improved :: "config \<Rightarrow> run \<Rightarrow> string list" where
  "cypressCommand_improved cfg r =
     (let cmd =
        [''run'',
         ''--project'', path_str (workPath r),
         ''--browser'', browser cfg,
         ''--headless'',
         ''--config'', ''videosFolder='' @ path_str (videosFolder r)
                        @ '',screenshotsFolder='' @ path_str (screenshotsFolder r),
         ''--reporter'', ''json'',
         ''--reporter-options'', ''output='' @ path_str (resultsFolder r @ [''results.json''])]
      in if truthy (baseUrl r)
         then splice_in cmd (indexOf cmd ''--config'' + 1) (''baseUrl='' @ the (baseUrl r) @ '','')
         else cmd)"

text \<open>
  The part up to \<^verbatim>\<open>await\<close> (lines 282-314). An id that is not in the registry is
  logged and nothing else happens. The rest is inside \<^verbatim>\<open>try\<close>: when a directory
  cannot be made, the \<^verbatim>\<open>catch\<close> (lines 367-371) sets the status to \<^verbatim>\<open>'failed'\<close> and
  broadcasts the reason.
\<close>

definition runCypress_begin_improved :: "config \<Rightarrow> server \<Rightarrow> string \<Rightarrow> server" where
  "runCypress_begin_improved cfg s runId =
     (case get_run s runId of
        None \<Rightarrow> s
      | Some a \<Rightarrow>
          (let s1 = set_status s a Running;
               r = heap s1 ! a;
               made = run_ops (make_dirs r) (fs s1)
           in case snd made of
                Some e \<Rightarrow>
                  broadcast_improved (set_status (s1\<lparr> fs := fst made \<rparr>) a Failed) runId
                    (''ERROR: '' @ message (FsError e))
              | None \<Rightarrow>
                  s1\<lparr> fs := fst made,
                      awaiting := awaiting s1 @
                        [\<lparr> trun = a, trunId = runId, tcmd = cypressCommand_improved cfg r \<rparr>] \<rparr>))"

text \<open>After the awaited lookup (lines 315-366): the process is spawned and the
  listeners for \<^verbatim>\<open>stdout\<close>, \<^verbatim>\<open>stderr\<close>, \<^verbatim>\<open>'error'\<close> and \<^verbatim>\<open>'close'\<close> are
  attached. The lookup and \<^verbatim>\<open>spawn\<close> are inside the \<^verbatim>\<open>try\<close> that starts at line
  288: when one of them throws (\<open>thrown\<close>, as for \<^verbatim>\<open>index.js\<close>), no process and no
  listener exists, and the \<^verbatim>\<open>catch\<close> (lines 367-371) sets the status of the run object
  to \<^verbatim>\<open>'failed'\<close> and broadcasts the reason.\<close>

definition runCypress_spawn_improved :: "server \<Rightarrow> nat \<Rightarrow> js_error option \<Rightarrow> server" where
  "runCypress_spawn_improved s i thrown =
     (if i < length (awaiting s)
      then (let t = awaiting s ! i;
                r = heap s ! trun t;
                cmd = tcmd t @
                  (case findConfigFile (fs s) (workPath r) of
                     Some configFile \<Rightarrow> [''--config-file'', configFile]
                   | None \<Rightarrow> [''--spec'',
                       path_str (workPath r @ [''cypress'', ''e2e'', ''**'', ''*.cy.*''])])
            in case thrown of
                 Some e \<Rightarrow>
                   broadcast_improved
                     (set_status (s\<lparr> awaiting := take i (awaiting s) @ drop (Suc i) (awaiting s) \<rparr>)
                        (trun t) Failed)
                     (trunId t) (''ERROR: '' @ message e)
               | None \<Rightarrow>
                   s\<lparr> awaiting := take i (awaiting s) @ drop (Suc i) (awaiting s),
                      procs := procs s @
                        [\<lparr> prun = trun t, prunId = trunId t, pargs = cmd,
                           pcwd = workPath r, palive = True \<rparr>] \<rparr>)
      else s)"

text \<open>The \<^verbatim>\<open>'error'\<close> listener (lines 341-345).\<close>

definition onError_improved :: "server \<Rightarrow> nat \<Rightarrow> string \<Rightarrow> server" where
  "onError_improved s pid msg =
     (let p = procs s ! pid
      in broadcast_improved (set_status s (prun p) Failed) (prunId p) (''ERROR: '' @ msg))"

text \<open>The \<^verbatim>\<open>'close'\<close> listener (lines 347-366): as in \<^verbatim>\<open>index.js\<close>, without the
  copying of the work directory's artifacts.\<close>

definition onClose_improved :: "server \<Rightarrow> nat \<Rightarrow> int option \<Rightarrow> server \<times> js_error option" where
  "onClose_improved s pid code =
     (let p = procs s ! pid;
          a = prun p;
          runId = prunId p;
          s1 = (set_status s a (if code = Some 0 then Done else Failed))
                 \<lparr> procs := (procs s)[pid := p\<lparr> palive := False \<rparr>] \<rparr>;
          r = heap s1 ! a
      in case code of
           None \<Rightarrow> (s1, Some TypeError)
         | Some c \<Rightarrow>
             (case writeFileSync (fs s1) (runPath r @ [''exit-code.txt'']) (toString c) of
                Inl e \<Rightarrow> (s1, Some (FsError e))
              | Inr f \<Rightarrow>
                  (let s2 = broadcast_improved (s1\<lparr> fs := f \<rparr>) runId
                              (''RUN_DONE status='' @ status_str (status r)
                               @ '' code='' @ toString c)
                   in (s2\<lparr> timers := timers s2 @ [runId] \<rparr>, None))))"

subsection \<open>\<^verbatim>\<open>cleanupOldRuns\<close> (lines 463-484)\<close>

text \<open>\<^verbatim>\<open>runsArray.length > n\<close> and \<^verbatim>\<open>runsArray.slice(n)\<close> for a number that may be
  negative or \<^verbatim>\<open>NaN\<close>: a comparison with \<^verbatim>\<open>NaN\<close> is false; a negative start counts
  from the end.\<close>

definition js_gt :: "nat \<Rightarrow> jsnum \<Rightarrow> bool" where
  "js_gt len n = (case n of NaN \<Rightarrow> False | Num k \<Rightarrow> int len > k)"

definition slice :: "jsnum \<Rightarrow> 'a list \<Rightarrow> 'a list" where
  "slice n xs = (case n of NaN \<Rightarrow> xs
                 | Num k \<Rightarrow> if 0 \<le> k then drop (nat k) xs
                            else drop (nat (int (length xs) + k)) xs)"

text \<open>
  The body of \<^verbatim>\<open>toDelete.forEach\<close>: the directory of the run is removed and then the
  registry entry; when the removal throws, the entry stays and the error is logged
  (the second component collects the ids logged with \<^verbatim>\<open>logger.error\<close>).
\<close>

definition cleanup_one :: "server \<times> string list \<Rightarrow> string \<times> run \<Rightarrow> server \<times> string list" where
  "cleanup_one acc e =
     (case rmSync (fs (fst acc)) (runPath (snd e)) of
        Inl err \<Rightarrow> (fst acc, snd acc @ [fst e])
      | Inr f \<Rightarrow> ((fst acc)\<lparr> fs := f, runs := AList.delete (fst e) (runs (fst acc)) \<rparr>, snd acc))"

text \<open>
  \<^verbatim>\<open>Array.from(runs.entries()).sort((a, b) => b[1].createdAt - a[1].createdAt)\<close>: the
  entries with their run objects, newest first. \<^verbatim>\<open>Array.prototype.sort\<close> is stable, and
  so is \<^const>\<open>sort_key\<close>: entries of the same time keep their registry order.
\<close>

definition runsArray :: "server \<Rightarrow> (string \<times> run) list" where
  "runsArray s =
     sort_key (\<lambda>e. - createdAt (snd e)) (map (\<lambda>e. (fst e, heap s ! snd e)) (runs s))"

definition toDelete :: "config \<Rightarrow> server \<Rightarrow> (string \<times> run) list" where
  "toDelete cfg s = slice (maxRunsRetention cfg) (runsArray s)"

definition cleanupOldRuns :: "config \<Rightarrow> server \<Rightarrow> server \<times> string list" where
  "cleanupOldRuns cfg s =
     (if js_gt (length (runsArray s)) (maxRunsRetention cfg)
      then foldl cleanup_one (s, []) (toDelete cfg s)
      else (s, []))"


section \<open>What is observed of a state\<close>

text \<open>The exit code on record for the run object at an address: the text of
  \<^verbatim>\<open>exit-code.txt\<close> under the directory of the run, when the file is there.\<close>

definition recorded_exit :: "server \<Rightarrow> nat \<Rightarrow> string option" where
  "recorded_exit s a =
     (case lookup (fs s) (runPath (heap s ! a) @ [''exit-code.txt'']) of
        Inr (File d) \<Rightarrow> Some d
      | _ \<Rightarrow> None)"

text \<open>A state with one run in progress: the run \<^verbatim>\<open>r1\<close> is \<^verbatim>\<open>'running'\<close>, its
  process is alive and one subscriber listens.\<close>

definition one_running :: server where
  "one_running =
     (init_server (Dir [(''app'', Dir [(''runs'', Dir [(''r1'', Dir [(''work'', Dir [])])])])]))
       \<lparr> runs := [(''r1'', 0)],
         heap := [\<lparr> run_id = ''r1'', createdAt = 1000, status = Running, baseUrl = None,
                    filename = ''login.cy.js'', runPath = [''app'', ''runs'', ''r1''],
                    workPath = [''app'', ''runs'', ''r1'', ''work''] \<rparr>],
         clients := [(''r1'', [7])],
         procs := [\<lparr> prun = 0, prunId = ''r1'', pargs = [''run''],
                     pcwd = [''app'', ''runs'', ''r1'', ''work''], palive = True \<rparr>] \<rparr>"

text \<open>A state with one run that waits to be spawned: the run \<^verbatim>\<open>r1\<close> is
  \<^verbatim>\<open>'running'\<close>, \<^verbatim>\<open>runCypress\<close> waits for the lookup of the configuration file, no
  process exists and one subscriber listens.\<close>

definition one_waiting :: server where
  "one_waiting =
     one_running\<lparr> procs := [],
                   awaiting := [\<lparr> trun = 0, trunId = ''r1'', tcmd = [''run''] \<rparr>] \<rparr>"

text \<open>A chunk of output as a terminal reads it: a sequence of ordinary characters
  (\<open>Plain\<close>, any character but the escape character) and of control sequences of the
  form \<^verbatim>\<open>ESC [\<close>, an optional \<^verbatim>\<open>?\<close>, digits and semicolons, one letter (\<open>Csi\<close>: the
  colour and cursor sequences). \<open>render\<close> is the text of the chunk, \<open>visible\<close> the
  ordinary characters of it, in their order.\<close>

datatype segment = Plain char | Csi bool string char

fun wf_segment :: "segment \<Rightarrow> bool" where
  "wf_segment (Plain c) = (c \<noteq> ESC)"
| "wf_segment (Csi q ps l) = (list_all isParam ps \<and> isLetter l)"

fun render_segment :: "segment \<Rightarrow> string" where
  "render_segment (Plain c) = [c]"
| "render_segment (Csi q ps l) = ESC # CHR ''['' # (if q then ''?'' else []) @ ps @ [l]"

fun visible_segment :: "segment \<Rightarrow> string" where
  "visible_segment (Plain c) = [c]"
| "visible_segment (Csi q ps l) = []"

definition render :: "segment list \<Rightarrow> string" where
  "render segs = concat (map render_segment segs)"

definition visible :: "segment list \<Rightarrow> string" where
  "visible segs = concat (map visible_segment segs)"

text \<open>The same state with other statuses: every run object gets the status that \<open>f\<close>
  gives it.\<close>

definition restatus :: "(run \<Rightarrow> status) \<Rightarrow> server \<Rightarrow> server" where
  "restatus f s = s\<lparr> heap := map (\<lambda>r. r\<lparr> status := f r \<rparr>) (heap s) \<rparr>"

text \<open>Example states for the sweep. \<open>three_runs\<close> is what \<^verbatim>\<open>/start\<close> of
  \<^verbatim>\<open>index-improved.js\<close> sees when it calls \<^verbatim>\<open>cleanupOldRuns\<close>: the oldest run is
  running, the second has finished, the third has just been registered and is queued.
  \<open>locked_run\<close> has two finished runs of which the older has a directory that cannot
  be opened. \<open>keep_one\<close> and \<open>keep_none\<close> are configurations that keep one run and
  no run.\<close>

definition one_run :: "string \<Rightarrow> int \<Rightarrow> status \<Rightarrow> run" where
  "one_run name t st =
     \<lparr> run_id = name, createdAt = t, status = st, baseUrl = None, filename = ''login.cy.js'',
       runPath = [''app'', ''runs'', name], workPath = [''app'', ''runs'', name, ''work''] \<rparr>"

definition three_runs :: server where
  "three_runs =
     (init_server (Dir [(''app'', Dir [(''runs'',
        Dir [(''r1'', Dir [(''work'', Dir [])]),
             (''r2'', Dir [(''work'', Dir []), (''exit-code.txt'', File ''0'')]),
             (''r3'', Dir [(''work'', Dir [])])])])]))
       \<lparr> runs := [(''r1'', 0), (''r2'', 1), (''r3'', 2)],
         heap := [one_run ''r1'' 1000 Running, one_run ''r2'' 2000 Done, one_run ''r3'' 3000 Queued] \<rparr>"

definition locked_run :: server where
  "locked_run =
     (init_server (Dir [(''app'', Dir [(''runs'',
        Dir [(''r1'', Dir [(''work'', Denied), (''exit-code.txt'', File ''0'')]),
             (''r2'', Dir [(''work'', Dir []), (''exit-code.txt'', File ''1'')])])])]))
       \<lparr> runs := [(''r1'', 0), (''r2'', 1)],
         heap := [one_run ''r1'' 1000 Done, one_run ''r2'' 2000 Failed] \<rparr>"

definition keep_one :: config where
  "keep_one = \<lparr> maxRunsRetention = Num 1, browser = ''chrome'', videoEnabled = True \<rparr>"

definition keep_none :: config where
  "keep_none = \<lparr> maxRunsRetention = Num 0, browser = ''chrome'', videoEnabled = True \<rparr>"

text \<open>The path of the status: \<^verbatim>\<open>queued\<close>, then \<^verbatim>\<open>running\<close>, then \<^verbatim>\<open>done\<close> or
  \<^verbatim>\<open>failed\<close>, where it stays. \<open>follows_path old new\<close> says that a status \<open>new\<close>
  found after \<open>old\<close> is on the path.\<close>

fun follows_path :: "status \<Rightarrow> status \<Rightarrow> bool" where
  "follows_path Queued new = (new = Queued \<or> new = Running)"
| "follows_path Running new = (new = Running \<or> new = Done \<or> new = Failed)"
| "follows_path Done new = (new = Done)"
| "follows_path Failed new = (new = Failed)"

text \<open>
  What holds in every state of \<^verbatim>\<open>index.js\<close>, about the run objects, the waiting calls
  of \<^verbatim>\<open>runCypress\<close> and the processes: a waiting call and a process that is alive hold
  a run object that exists and is \<^verbatim>\<open>'running'\<close>, and no run object is held twice.
\<close>

definition inv3 :: "run list \<Rightarrow> task list \<Rightarrow> proc list \<Rightarrow> bool" where
  "inv3 h aw ps \<longleftrightarrow>
     (\<forall>t \<in> set aw. trun t < length h \<and> status (h ! trun t) = Running)
   \<and> (\<forall>i < length ps. palive (ps ! i) \<longrightarrow>
         prun (ps ! i) < length h \<and> status (h ! prun (ps ! i)) = Running)
   \<and> distinct (map trun aw)
   \<and> (\<forall>i < length ps. \<forall>j < length ps.
         palive (ps ! i) \<and> palive (ps ! j) \<and> prun (ps ! i) = prun (ps ! j) \<longrightarrow> i = j)
   \<and> (\<forall>t \<in> set aw. \<forall>i < length ps. palive (ps ! i) \<longrightarrow> trun t \<noteq> prun (ps ! i))"

definition inv_index :: "server \<Rightarrow> bool" where
  "inv_index s = inv3 (heap s) (awaiting s) (procs s)"

text \<open>What one event of \<^verbatim>\<open>index.js\<close> can do to the run objects, the waiting calls and
  the processes: nothing; a new run object that is \<^verbatim>\<open>'running'\<close>, with or without a
  waiting call for it; a waiting call that becomes a process, or ends with an exception;
  a process that closes and leaves its run \<^verbatim>\<open>'done'\<close> or \<^verbatim>\<open>'failed'\<close>.\<close>

inductive core_step ::
  "run list \<Rightarrow> task list \<Rightarrow> proc list \<Rightarrow> run list \<Rightarrow> task list \<Rightarrow> proc list \<Rightarrow> bool" where
  same: "core_step h aw ps h aw ps"
| created: "status r = Running \<Longrightarrow> core_step h aw ps (h @ [r]) aw ps"
| begun: "status r = Running \<Longrightarrow> trun tk = length h \<Longrightarrow> core_step h aw ps (h @ [r]) (aw @ [tk]) ps"
| spawned: "i < length aw \<Longrightarrow> prun p = trun (aw ! i) \<Longrightarrow> palive p \<Longrightarrow>
            core_step h aw ps h (take i aw @ drop (Suc i) aw) (ps @ [p])"
| dropped: "i < length aw \<Longrightarrow> core_step h aw ps h (take i aw @ drop (Suc i) aw) ps"
| closed: "pid < length ps \<Longrightarrow> palive (ps ! pid) \<Longrightarrow> st = Done \<or> st = Failed \<Longrightarrow>
           core_step h aw ps (h[prun (ps ! pid) := (h ! prun (ps ! pid))\<lparr> status := st \<rparr>]) aw
             (ps[pid := (ps ! pid)\<lparr> palive := False \<rparr>])"

text \<open>A sequence of events, one after the other, and an example: a spec file is
  uploaded to \<^verbatim>\<open>index.js\<close> on an empty disk, then the awaited lookup answers and the
  process is spawned. \<open>no_zip\<close> is an \<^verbatim>\<open>adm-zip\<close> that rejects every archive.\<close>

definition run_events ::
  "(string \<Rightarrow> path \<Rightarrow> fsnode \<Rightarrow> js_error + fsnode) \<Rightarrow> server \<Rightarrow> event list \<Rightarrow> server" where
  "run_events unzip s evs = foldl (\<lambda>s ev. fst (step_index unzip s ev)) s evs"

definition no_zip :: "string \<Rightarrow> path \<Rightarrow> fsnode \<Rightarrow> js_error + fsnode" where
  "no_zip b p f = Inl ZipError"

definition upload_spec :: event where
  "upload_spec = PostStart (Some \<lparr> originalname = ''login.cy.js'', buffer = ''it()'' \<rparr>) None
                   ''2025-01-01T10:00:00.000Z'' 1735725600000 ''a1B2c3''"

section \<open>Facts about the file system\<close>

lemma lookup_append:
  "lookup n (p @ q) = (case lookup n p of Inl e \<Rightarrow> Inl e | Inr m \<Rightarrow> lookup m q)"
proof (induction p arbitrary: n)
  case Nil
  show ?case by simp
next
  case (Cons x p)
  show ?case
    by (cases n) (simp_all add: Cons.IH split: option.splits)
qed

lemma existsSync_prefix: "existsSync n (p @ q) \<Longrightarrow> existsSync n p"
  by (simp add: existsSync_def lookup_append split: sum.splits)

lemma mkdirSync_lookup:
  "mkdirSync n p = Inr n' \<Longrightarrow> \<exists>d. lookup n' p = Inr d \<and> isDirectory d"
proof (induction n p arbitrary: n' rule: mkdirSync.induct)
  case (4 es x p)
  show ?case
  proof (cases "map_of es x")
    case None
    with 4 show ?thesis
      by (auto split: sum.splits simp: map_add_def)
  next
    case (Some c)
    with 4 show ?thesis
      by (auto split: sum.splits simp: update_conv')
  qed
qed auto

lemma writeFileSync_lookup:
  "writeFileSync n p d = Inr n' \<Longrightarrow> lookup n' p = Inr (File d)"
proof (induction n p d arbitrary: n' rule: writeFileSync.induct)
  case (4 es x p d)
  show ?case
  proof (cases "map_of es x")
    case None
    with 4 show ?thesis
      by (auto split: sum.splits if_splits simp: map_add_def)
  next
    case (Some c)
    with 4 show ?thesis
      by (auto split: sum.splits simp: update_conv')
  qed
qed auto

lemma putNode_lookup_other:
  "putNode n (pre @ x # q) c = Inr n' \<Longrightarrow> x \<noteq> y \<Longrightarrow> lookup n' (pre @ y # p) = lookup n (pre @ y # p)"
proof (induction pre arbitrary: n n')
  case Nil
  then show ?case
    by (cases n) (auto split: option.splits sum.splits if_splits simp: map_add_def update_conv')
next
  case (Cons z pre)
  show ?case
  proof (cases n)
    case (Dir es)
    show ?thesis
    proof (cases "map_of es z")
      case None
      with Cons.prems(1) Dir obtain m where
        m: "putNode (Dir []) (pre @ x # q) c = Inr m" and n': "n' = Dir (es @ [(z, m)])"
        by (auto split: sum.splits)
      have "lookup m (pre @ y # p) = lookup (Dir []) (pre @ y # p)"
        using Cons.IH[OF m Cons.prems(2)] .
      also have "\<dots> = Inl ENOENT"
        by (cases pre) simp_all
      finally show ?thesis
        using None Dir n' by (simp add: map_add_def)
    next
      case (Some k)
      with Cons.prems(1) Dir obtain m where
        m: "putNode k (pre @ x # q) c = Inr m" and n': "n' = Dir (AList.update z m es)"
        by (auto split: sum.splits)
      from Cons.IH[OF m Cons.prems(2)] show ?thesis
        using Some Dir n' by (simp add: update_conv')
    qed
  next
    case (File d)
    with Cons.prems(1) show ?thesis by simp
  next
    case Denied
    with Cons.prems(1) show ?thesis by simp
  qed
qed

lemma rmSync_gone: "rmSync n p = Inr n' \<Longrightarrow> \<not> existsSync n' p"
proof (induction n p arbitrary: n' rule: rmSync.induct)
  case (2 es x)
  then show ?case
    by (auto simp: existsSync_def delete_conv' split: option.splits if_splits)
next
  case (3 es x y p)
  show ?case
  proof (cases "map_of es x")
    case None
    with "3.prems" show ?thesis by (auto simp add: existsSync_def)
  next
    case (Some c)
    with "3.prems" obtain c' where c': "rmSync c (y # p) = Inr c'" and n': "n' = Dir (AList.update x c' es)"
      by (auto split: sum.splits)
    from "3.IH"[OF Some c'] show ?thesis
      using n' by (simp add: existsSync_def update_conv')
  qed
qed auto

lemma rmSync_keeps_absent:
  "rmSync n q = Inr n' \<Longrightarrow> \<not> existsSync n p \<Longrightarrow> \<not> existsSync n' p"
proof (induction n q arbitrary: n' p rule: rmSync.induct)
  case (2 es x)
  then show ?case
    by (cases p) (auto simp: existsSync_def delete_conv' split: option.splits if_splits sum.splits)
next
  case (3 es x y q)
  show ?case
  proof (cases p)
    case Nil
    with "3.prems" show ?thesis by (simp add: existsSync_def)
  next
    case (Cons z p')
    show ?thesis
    proof (cases "map_of es x")
      case None
      with "3.prems" show ?thesis by auto
    next
      case (Some c)
      with "3.prems" obtain c' where c': "rmSync c (y # q) = Inr c'" and n': "n' = Dir (AList.update x c' es)"
        by (auto split: sum.splits)
      show ?thesis
      proof (cases "z = x")
        case True
        with "3.prems"(2) Some Cons have "\<not> existsSync c p'"
          by (simp add: existsSync_def)
        from "3.IH"[OF Some c' this] show ?thesis
          using True Cons n' by (simp add: existsSync_def update_conv')
      next
        case False
        with "3.prems"(2) Cons n' show ?thesis
          by (simp add: existsSync_def update_conv')
      qed
    qed
  qed
qed auto


lemma cpSync_keeps_sibling:
  "cpSync f src (pre @ x # q) = Inr f' \<Longrightarrow> x \<noteq> y \<Longrightarrow> lookup f' (pre @ y # p) = lookup f (pre @ y # p)"
  by (auto simp: cpSync_def split: sum.splits dest: putNode_lookup_other)

lemma run_ops_Cons_None:
  "run_ops (op # ops) f = (f', None) \<Longrightarrow> \<exists>f1. op f = Inr f1 \<and> run_ops ops f1 = (f', None)"
  by (auto split: sum.splits)

section \<open>Facts about strings and numbers\<close>

declare digits.simps [simp del]

lemma digits_nonempty: "digits n \<noteq> []"
  by (subst digits.simps) simp

lemma digits_zero_iff: "digits n = ''0'' \<longleftrightarrow> n = 0"
proof (cases "n < 10")
  case True
  then have "take_bit 8 (48 + n) = 48 + n"
    by (simp add: take_bit_nat_eq_self)
  with True show ?thesis
    by (subst digits.simps) (auto simp: digit_def char_of_eq_iff)
next
  case False
  then have "digits n = digits (n div 10) @ [digit (n mod 10)]"
    by (subst digits.simps) simp
  moreover have "digits (n div 10) \<noteq> []"
    by (rule digits_nonempty)
  ultimately have "length (digits n) \<ge> 2"
    by (cases "digits (n div 10)") simp_all
  with False show ?thesis by auto
qed

lemma toString_zero_iff: "toString c = ''0'' \<longleftrightarrow> c = 0"
  by (auto simp: toString_def digits_zero_iff)

section \<open>Facts about the state\<close>

lemma set_status_heap:
  "a < length (heap s) \<Longrightarrow> status (heap (set_status s a st) ! a) = st"
  by (simp add: set_status_def)

lemma broadcast_index_fields [simp]:
  "heap (broadcast_index s runId d) = heap s"
  "fs (broadcast_index s runId d) = fs s"
  "runs (broadcast_index s runId d) = runs s"
  "procs (broadcast_index s runId d) = procs s"
  "awaiting (broadcast_index s runId d) = awaiting s"
  by (simp_all add: broadcast_index_def)

lemma set_status_fields [simp]:
  "fs (set_status s a st) = fs s"
  "runs (set_status s a st) = runs s"
  "procs (set_status s a st) = procs s"
  "awaiting (set_status s a st) = awaiting s"
  "length (heap (set_status s a st)) = length (heap s)"
  by (simp_all add: set_status_def)

lemma set_status_paths [simp]:
  "runPath (heap (set_status s a st) ! b) = runPath (heap s ! b)"
  "workPath (heap (set_status s a st) ! b) = workPath (heap s ! b)"
  by (cases "a < length (heap s)"; simp add: set_status_def nth_list_update list_update_beyond)+

section \<open>The exit code and the status (\<^verbatim>\<open>index.js\<close>)\<close>

lemma collect_index_exit_file:
  assumes "run_ops (collect_index r c) f = (f', None)"
  shows "lookup f' (runPath r @ [''exit-code.txt'']) = Inr (File (toString c))"
proof -
  let ?e = "runPath r @ [''exit-code.txt'']"
  let ?wv = "workPath r @ [''cypress'', ''videos'']"
  let ?ws = "workPath r @ [''cypress'', ''screenshots'']"
  from assms obtain f1 f2 where
    w: "writeFileSync f ?e (toString c) = Inr f1" and
    c1: "(if existsSync f1 ?wv then cpSync f1 ?wv (runPath r @ ''cypress'' # [''videos'']) else Inr f1) = Inr f2" and
    c2: "(if existsSync f2 ?ws then cpSync f2 ?ws (runPath r @ ''cypress'' # [''screenshots'']) else Inr f2) = Inr f'"
    unfolding collect_index_def Let_def
    by (auto simp del: run_ops.simps simp add: run_ops.simps(1) dest!: run_ops_Cons_None)
  have l1: "lookup f1 ?e = Inr (File (toString c))"
    using w by (rule writeFileSync_lookup)
  have l2: "lookup f2 ?e = lookup f1 ?e"
    using c1 cpSync_keeps_sibling[of f1 ?wv "runPath r" "''cypress''" "[''videos'']" f2 "''exit-code.txt''" "[]"]
    by (cases "existsSync f1 ?wv") simp_all
  have l3: "lookup f' ?e = lookup f2 ?e"
    using c2 cpSync_keeps_sibling[of f2 ?ws "runPath r" "''cypress''" "[''screenshots'']" f' "''exit-code.txt''" "[]"]
    by (cases "existsSync f2 ?ws") simp_all
  show ?thesis using l1 l2 l3 by simp
qed

lemma onClose_index_heap:
  "heap (fst (onClose_index s pid code))
     = (heap s)[prun (procs s ! pid) :=
          (heap s ! prun (procs s ! pid))\<lparr> status := (if code = Some 0 then Done else Failed) \<rparr>]"
  by (simp add: onClose_index_def Let_def set_status_def split: option.splits)

lemma onClose_index_wrote:
  assumes "snd (onClose_index s pid code) = None" "prun (procs s ! pid) < length (heap s)"
  shows "\<exists>c. code = Some c \<and>
           recorded_exit (fst (onClose_index s pid code)) (prun (procs s ! pid)) = Some (toString c)"
proof -
  let ?a = "prun (procs s ! pid)"
  from assms(1) obtain c where c: "code = Some c"
    by (cases code) (simp_all add: onClose_index_def Let_def)
  let ?r = "(heap s ! ?a)\<lparr> status := (if code = Some 0 then Done else Failed) \<rparr>"
  let ?w = "run_ops (collect_index ?r c) (fs s)"
  have r: "heap (set_status s ?a (if code = Some 0 then Done else Failed)) ! ?a = ?r"
    using assms(2) by (simp add: set_status_def)
  have sw: "snd ?w = None"
    using assms(1) c r by (cases "snd ?w") (simp_all add: onClose_index_def Let_def)
  have fs': "fs (fst (onClose_index s pid code)) = fst ?w"
    using c r sw by (simp add: onClose_index_def Let_def)
  have "?w = (fst ?w, None)"
    using sw by (simp add: prod_eq_iff)
  then have "lookup (fst ?w) (runPath ?r @ [''exit-code.txt'']) = Inr (File (toString c))"
    by (rule collect_index_exit_file)
  then show ?thesis
    using c fs' assms(2) by (simp add: recorded_exit_def onClose_index_heap)
qed



text \<open>
  Claim C2. When the \<^verbatim>\<open>'close'\<close> listener of \<^verbatim>\<open>index.js\<close> has run for the process of
  a run, the status of the run is \<^verbatim>\<open>'done'\<close> exactly when the exit code is 0 and
  \<^verbatim>\<open>'failed'\<close> for every other code (also for \<^verbatim>\<open>null\<close>). When the listener ran to
  its end, the code it was given is on record in \<^verbatim>\<open>exit-code.txt\<close>, and the status is
  \<^verbatim>\<open>'done'\<close> exactly when the recorded text is \<^verbatim>\<open>0\<close>.
\<close>

theorem exit_code_decides_status:
  assumes "a = prun (procs s ! pid)" and "a < length (heap s)"
    and "s' = fst (onClose_index s pid code)"
  shows "(status (heap s' ! a) = Done \<longleftrightarrow> code = Some 0)
       \<and> (status (heap s' ! a) = Failed \<longleftrightarrow> code \<noteq> Some 0)
       \<and> (snd (onClose_index s pid code) = None \<longrightarrow>
            (\<exists>c. code = Some c \<and> recorded_exit s' a = Some (toString c))
            \<and> (status (heap s' ! a) = Done \<longleftrightarrow> recorded_exit s' a = Some ''0''))"
proof -
  have st: "status (heap s' ! a) = (if code = Some 0 then Done else Failed)"
    using assms by (simp add: onClose_index_heap)
  have c1: "status (heap s' ! a) = Done \<longleftrightarrow> code = Some 0"
    by (simp add: st)
  have c2: "status (heap s' ! a) = Failed \<longleftrightarrow> code \<noteq> Some 0"
    by (simp add: st)
  have c3: "(\<exists>c. code = Some c \<and> recorded_exit s' a = Some (toString c))
            \<and> (status (heap s' ! a) = Done \<longleftrightarrow> recorded_exit s' a = Some ''0'')"
    if fin: "snd (onClose_index s pid code) = None"
  proof -
    from onClose_index_wrote[OF fin] assms
    obtain c where c: "code = Some c" and r: "recorded_exit s' a = Some (toString c)"
      by auto
    have "recorded_exit s' a = Some ''0'' \<longleftrightarrow> c = 0"
      by (simp only: r option.inject toString_zero_iff)
    with c1 c r show ?thesis by simp
  qed
  from c1 c2 c3 show ?thesis by blast
qed


theorem exit_code_decides_status_witness:
  "0 = prun (procs one_running ! 0) \<and> 0 < length (heap one_running)
   \<and> status (heap (fst (onClose_index one_running 0 (Some 0))) ! 0) = Done
   \<and> recorded_exit (fst (onClose_index one_running 0 (Some 0))) 0 = Some ''0''
   \<and> status (heap (fst (onClose_index one_running 0 (Some 3))) ! 0) = Failed
   \<and> recorded_exit (fst (onClose_index one_running 0 (Some 3))) 0 = Some ''3''"
proof -
  have a: "0 = prun (procs one_running ! 0)"
    by code_simp
  have l: "0 < length (heap one_running)"
    by code_simp
  have f0: "snd (onClose_index one_running 0 (Some 0)) = None"
    by code_simp
  have f3: "snd (onClose_index one_running 0 (Some 3)) = None"
    by code_simp
  have t3: "toString 3 = ''3''"
    by code_simp
  show ?thesis
    using exit_code_decides_status[OF a l refl, of "Some 0"]
      exit_code_decides_status[OF a l refl, of "Some 3"] a l f0 f3 t3
    by auto
qed

section \<open>Stripping the output (\<^verbatim>\<open>broadcast\<close>)\<close>

lemma isParam_not_ESC: "isParam c \<Longrightarrow> c \<noteq> ESC"
  by (auto simp: isParam_def ESC_def)

lemma isLetter_not_ESC: "isLetter c \<Longrightarrow> c \<noteq> ESC"
  by (auto simp: isLetter_def ESC_def)

lemma isLetter_not_isParam: "isLetter c \<Longrightarrow> \<not> isParam c"
  by (auto simp: isLetter_def isParam_def)

lemma matchCsi_not_ESC: "c \<noteq> ESC \<Longrightarrow> matchCsi q (c # cs) = None"
  by (cases cs) simp_all

lemma bracket_not_ESC: "CHR ''['' \<noteq> ESC" "CHR ''?'' \<noteq> ESC"
  by (simp_all add: ESC_def)

lemma replaceCsi_plain: "ESC \<notin> set p \<Longrightarrow> replaceCsi q (p @ x) = p @ replaceCsi q x"
  by (induction p) (auto simp: matchCsi_not_ESC dest: not_sym)

lemma not_question: "isParam c \<Longrightarrow> c \<noteq> CHR ''?''" "isLetter c \<Longrightarrow> c \<noteq> CHR ''?''"
  by (auto simp: isParam_def isLetter_def)

lemma question_neither: "\<not> isParam (CHR ''?'')" "\<not> isLetter (CHR ''?'')"
  by (auto simp: isParam_def isLetter_def)

lemma dropWhile_params:
  "list_all isParam ps \<Longrightarrow> isLetter l \<Longrightarrow> dropWhile isParam (ps @ l # r) = l # r"
  by (simp add: dropWhile_append2 list_all_iff isLetter_not_isParam)

lemma hd_params_not_question:
  "list_all isParam ps \<Longrightarrow> isLetter l \<Longrightarrow> hd (ps @ l # r) \<noteq> CHR ''?''"
  by (cases ps) (simp_all add: not_question)

text \<open>The pattern with the optional \<^verbatim>\<open>?\<close> matches every control sequence of a chunk, the
  pattern without it those that have no \<^verbatim>\<open>?\<close>; what is left is what follows the
  sequence.\<close>

lemma matchCsi_Csi:
  assumes "list_all isParam ps" "isLetter l" "q \<longrightarrow> q'"
  shows "matchCsi q' (render_segment (Csi q ps l) @ r) = Some r"
proof (cases q)
  case True
  with assms(3) have "q'" by simp
  with True assms(1,2) show ?thesis
    by (simp add: dropWhile_params)
next
  case False
  with assms(1,2) show ?thesis
    by (simp add: dropWhile_params hd_params_not_question)
qed

lemma matchCsi_question:
  "matchCsi False (render_segment (Csi True ps l) @ r) = None"
  by (simp add: question_neither)

lemma render_Cons: "render (sg # segs) = render_segment sg @ render segs"
  by (simp add: render_def)

lemma visible_Cons: "visible (sg # segs) = visible_segment sg @ visible segs"
  by (simp add: visible_def)

lemma replaceCsi_match:
  "matchCsi q (c # cs) = Some r \<Longrightarrow> replaceCsi q (c # cs) = replaceCsi q r"
  by simp

lemma replaceCsi_no_match:
  "matchCsi q (c # cs) = None \<Longrightarrow> replaceCsi q (c # cs) = c # replaceCsi q cs"
  by simp

lemma second_pass_visible:
  "list_all wf_segment segs \<Longrightarrow> replaceCsi True (render segs) = visible segs"
proof (induction segs)
  case Nil
  show ?case by (simp add: render_def visible_def)
next
  case (Cons sg segs)
  then have IH: "replaceCsi True (render segs) = visible segs" by simp
  show ?case
  proof (cases sg)
    case (Plain c)
    with Cons.prems have "c \<noteq> ESC" by simp
    then have "replaceCsi True (c # render segs) = c # replaceCsi True (render segs)"
      by (simp add: matchCsi_not_ESC)
    with Plain IH show ?thesis
      by (simp add: render_Cons visible_Cons)
  next
    case (Csi q ps l)
    with Cons.prems have wf: "list_all isParam ps" "isLetter l" by simp_all
    have m: "matchCsi True (render_segment (Csi q ps l) @ render segs) = Some (render segs)"
      using wf by (rule matchCsi_Csi) simp
    have "replaceCsi True (render_segment (Csi q ps l) @ render segs)
            = replaceCsi True (render segs)"
      using replaceCsi_match[of True ESC _ "render segs"] m by simp
    with Csi IH show ?thesis
      by (simp only: render_Cons visible_Cons visible_segment.simps append_Nil)
  qed
qed

lemma first_pass_segments:
  "list_all wf_segment segs \<Longrightarrow>
     \<exists>segs'. replaceCsi False (render segs) = render segs' \<and> list_all wf_segment segs'
        \<and> visible segs' = visible segs"
proof (induction segs)
  case Nil
  show ?case
    by (rule exI[of _ "[]"]) (simp add: render_def)
next
  case (Cons sg segs)
  then obtain segs' where IH: "replaceCsi False (render segs) = render segs'"
      "list_all wf_segment segs'" "visible segs' = visible segs"
    by auto
  show ?case
  proof (cases sg)
    case (Plain c)
    with Cons.prems have c: "c \<noteq> ESC" by simp
    then have "replaceCsi False (c # render segs) = c # replaceCsi False (render segs)"
      by (simp add: matchCsi_not_ESC)
    with Plain IH c show ?thesis
      by (intro exI[of _ "Plain c # segs'"]) (simp add: render_Cons visible_Cons)
  next
    case (Csi q ps l)
    with Cons.prems have wf: "list_all isParam ps" "isLetter l" by simp_all
    show ?thesis
    proof (cases q)
      case False
      have m: "matchCsi False (render_segment (Csi False ps l) @ render segs) = Some (render segs)"
        using wf by (rule matchCsi_Csi) simp
      have "replaceCsi False (render_segment (Csi False ps l) @ render segs)
              = replaceCsi False (render segs)"
        using replaceCsi_match[of False ESC _ "render segs"] m by simp
      with Csi False IH show ?thesis
        by (intro exI[of _ segs'])
           (simp only: render_Cons visible_Cons visible_segment.simps append_Nil simp_thms)
    next
      case True
      let ?w = "CHR ''['' # CHR ''?'' # ps @ [l]"
      have w: "ESC \<notin> set ?w"
        using wf bracket_not_ESC
        by (auto simp: list_all_iff dest: isParam_not_ESC isLetter_not_ESC)
      have "matchCsi False (render_segment (Csi True ps l) @ render segs) = None"
        by (rule matchCsi_question)
      then have "replaceCsi False (render_segment (Csi True ps l) @ render segs)
              = ESC # replaceCsi False (?w @ render segs)"
        using replaceCsi_no_match[of False ESC "?w @ render segs"] by simp
      also have "\<dots> = ESC # ?w @ replaceCsi False (render segs)"
        using replaceCsi_plain[OF w] by simp
      also have "\<dots> = render (Csi True ps l # segs')"
        using IH(1) by (simp add: render_Cons)
      finally show ?thesis
        using Csi True IH(2,3) wf
        by (intro exI[of _ "Csi True ps l # segs'"]) (simp add: render_Cons visible_Cons)
    qed
  qed
qed

lemma visible_no_ESC: "list_all wf_segment segs \<Longrightarrow> ESC \<notin> set (visible segs)"
proof (induction segs)
  case Nil
  show ?case by (simp add: visible_def)
next
  case (Cons sg segs)
  then show ?case
    by (cases sg) (auto simp: visible_Cons)
qed

lemma cleanData_render:
  assumes "list_all wf_segment segs"
  shows "cleanData (render segs) = visible segs"
proof -
  from first_pass_segments[OF assms] obtain segs' where
    "replaceCsi False (render segs) = render segs'" "list_all wf_segment segs'"
    "visible segs' = visible segs"
    by blast
  then show ?thesis
    using second_pass_visible[of segs'] by (simp add: cleanData_def)
qed

text \<open>
  Claim C7, as the code has it. \<^verbatim>\<open>broadcast\<close> of \<^verbatim>\<open>index.js\<close> removes, in two passes,
  the sequences \<^verbatim>\<open>ESC [\<close> digits-and-semicolons letter and then the same with an optional
  \<^verbatim>\<open>?\<close>. For a chunk that is made of ordinary characters (any character but the escape
  character) and of such sequences, what is left is exactly the ordinary characters, unchanged
  and in their order: every sequence is removed and nothing else. No escape character is
  left then, and each subscriber of the run is sent \<^verbatim>\<open>data: \<close>, the ordinary characters
  of the chunk and two line feeds. \<^verbatim>\<open>broadcast\<close> of \<^verbatim>\<open>index-improved.js\<close> has no
  stripping: each subscriber is sent \<^verbatim>\<open>data: \<close>, the chunk as it came and two line
  feeds.
\<close>

theorem csi_sequences_are_stripped:
  assumes "list_all wf_segment segs"
  shows "cleanData (render segs) = visible segs
       \<and> ESC \<notin> set (visible segs)
       \<and> sent (broadcast_index s runId (render segs))
           = sent s @ map (\<lambda>client. (client, ''data: '' @ visible segs @ [LF, LF])) (runClients s runId)
       \<and> sent (broadcast_improved s runId d)
           = sent s @ map (\<lambda>client. (client, ''data: '' @ d @ [LF, LF])) (runClients s runId)"
  using cleanData_render[OF assms] visible_no_ESC[OF assms]
  by (simp add: broadcast_index_def broadcast_improved_def sse_def)

theorem csi_sequences_are_stripped_witness:
  "list_all wf_segment
     ([Csi False ''31'' (CHR ''m'')] @ map Plain ''1 failing'' @ [Plain LF, Csi False ''0'' (CHR ''m''),
       Csi True ''25'' (CHR ''h'')])
   \<and> render ([Csi False ''31'' (CHR ''m'')] @ map Plain ''1 failing'' @ [Plain LF, Csi False ''0'' (CHR ''m''),
       Csi True ''25'' (CHR ''h'')])
       = [ESC] @ ''[31m1 failing'' @ [LF, ESC] @ ''[0m'' @ [ESC] @ ''[?25h''
   \<and> cleanData ([ESC] @ ''[31m1 failing'' @ [LF, ESC] @ ''[0m'' @ [ESC] @ ''[?25h'') = ''1 failing'' @ [LF]
   \<and> ESC \<notin> set (''1 failing'' @ [LF])
   \<and> sent (broadcast_index one_running ''r1''
        ([ESC] @ ''[31m1 failing'' @ [LF, ESC] @ ''[0m'' @ [ESC] @ ''[?25h''))
       = [(7, ''data: 1 failing'' @ [LF, LF, LF])]
   \<and> sent (broadcast_improved one_running ''r1'' ([ESC] @ ''[31m1 failing''))
       = [(7, ''data: '' @ [ESC] @ ''[31m1 failing'' @ [LF, LF])]"
proof -
  let ?segs = "[Csi False ''31'' (CHR ''m'')] @ map Plain ''1 failing'' @ [Plain LF, Csi False ''0'' (CHR ''m''),
       Csi True ''25'' (CHR ''h'')]"
  let ?d = "[ESC] @ ''[31m1 failing'' @ [LF, ESC] @ ''[0m'' @ [ESC] @ ''[?25h''"
  have h: "list_all wf_segment ?segs"
    by code_simp
  have r: "render ?segs = ?d"
    by code_simp
  have v: "visible ?segs = ''1 failing'' @ [LF]"
    by code_simp
  have se: "sent one_running = []" and rc: "runClients one_running ''r1'' = [7]"
    by code_simp+
  note w = csi_sequences_are_stripped[OF h, of one_running "''r1''" "[ESC] @ ''[31m1 failing''"]
  from w have w1: "cleanData ?d = ''1 failing'' @ [LF]"
    unfolding r v by blast
  from w have w2: "ESC \<notin> set (''1 failing'' @ [LF])"
    unfolding r v by blast
  from w have "sent (broadcast_index one_running ''r1'' ?d)
      = sent one_running @ map (\<lambda>client. (client, ''data: '' @ (''1 failing'' @ [LF]) @ [LF, LF]))
          (runClients one_running ''r1'')"
    unfolding r v by blast
  then have w3: "sent (broadcast_index one_running ''r1'' ?d) = [(7, ''data: 1 failing'' @ [LF, LF, LF])]"
    by (simp add: se rc)
  from w have "sent (broadcast_improved one_running ''r1'' ([ESC] @ ''[31m1 failing''))
      = sent one_running @ map (\<lambda>client. (client, ''data: '' @ ([ESC] @ ''[31m1 failing'') @ [LF, LF]))
          (runClients one_running ''r1'')"
    by blast
  then have w4: "sent (broadcast_improved one_running ''r1'' ([ESC] @ ''[31m1 failing''))
       = [(7, ''data: '' @ [ESC] @ ''[31m1 failing'' @ [LF, LF])]"
    by (simp add: se rc)
  from h r w1 w2 w3 w4 show ?thesis
    by blast
qed


text \<open>
  Claim C7 as stated does not hold: an escape character that starts another kind of
  sequence (here the one that sets the window title, ended by the bell character) goes
  through \<^verbatim>\<open>broadcast\<close> of \<^verbatim>\<open>index.js\<close> unchanged; two passes leave a whole colour
  sequence behind when three are nested; and \<^verbatim>\<open>broadcast\<close> of
  \<^verbatim>\<open>index-improved.js\<close> removes nothing.
\<close>

theorem control_bytes_reach_subscribers:
  "sent (broadcast_index one_running ''r1'' ([ESC] @ '']0;title'' @ [CHR 0x07]))
     = [(7, ''data: '' @ [ESC] @ '']0;title'' @ [CHR 0x07] @ [LF, LF])]
   \<and> sent (broadcast_index one_running ''r1'' ([ESC, ESC, ESC] @ ''[0m[0m[0m''))
     = [(7, ''data: '' @ [ESC] @ ''[0m'' @ [LF, LF])]
   \<and> sent (broadcast_improved one_running ''r1'' ([ESC] @ ''[31mfailed''))
     = [(7, ''data: '' @ [ESC] @ ''[31mfailed'' @ [LF, LF])]"
  by code_simp


section \<open>Subscribing (\<^verbatim>\<open>/runs/:id/stream\<close>)\<close>

text \<open>
  Claim C6 at an id the registry does not have, on \<^verbatim>\<open>index.js\<close>: the registry is empty,
  the request for the stream of \<^verbatim>\<open>no-such-run\<close> is answered with the head of an event
  stream (status 200), and the response is kept as a subscriber of that id.
\<close>

theorem stream_index_unknown_run:
  "get_run (init_server (Dir [])) ''no-such-run'' = None
   \<and> stream_index (init_server (Dir [])) ''no-such-run'' 7
       = ((init_server (Dir []))\<lparr> clients := [(''no-such-run'', [7])] \<rparr>, EventStream)
   \<and> http_status (snd (stream_index (init_server (Dir [])) ''no-such-run'' 7)) = 200"
  by (simp add: get_run_def stream_index_def init_server_def runClients_def)


text \<open>\<^verbatim>\<open>index-improved.js\<close> does what the claim says: 404 for an id that is not in
  the registry, a subscription for an id that is, whatever the status of the run.\<close>

lemma stream_improved_unknown_run:
  "get_run s runId = None \<Longrightarrow> stream_improved s runId res = (s, ErrorJson 404 ''Run not found'')"
  by (simp add: stream_improved_def)

lemma stream_improved_known_run:
  assumes "get_run s runId = Some a"
  shows "snd (stream_improved s runId res) = EventStream"
    and "res \<in> set (runClients (fst (stream_improved s runId res)) runId)"
  using assms
  by (simp_all add: stream_improved_def stream_index_def runClients_def Let_def update_conv')


section \<open>The artifact queries without a directory (\<^verbatim>\<open>index.js\<close>)\<close>

text \<open>
  Claim C9. For a run of the registry, \<^verbatim>\<open>getRunVideos\<close> and \<^verbatim>\<open>getRunScreenshots\<close>
  return the empty list, without an error, when their directory under the run does not
  exist, and \<^verbatim>\<open>getRunResults\<close> returns \<^verbatim>\<open>null\<close> when the results directory does not
  exist.
\<close>

theorem missing_artifacts_are_empty:
  assumes "get_run s runId = Some a"
    and "rp = runPath (heap s ! a)"
  shows "(\<not> existsSync (fs s) (rp @ [''cypress'', ''videos'']) \<longrightarrow> getRunVideos s runId = Inr [])
       \<and> (\<not> existsSync (fs s) (rp @ [''cypress'', ''screenshots'']) \<longrightarrow> getRunScreenshots s runId = Inr [])
       \<and> (\<not> existsSync (fs s) (rp @ [''results'']) \<longrightarrow> getRunResults s runId = None)"
proof -
  have "\<not> existsSync (fs s) (rp @ [''results'']) \<Longrightarrow> \<not> existsSync (fs s) (rp @ [''results'', ''results.json''])"
    using existsSync_prefix[of "fs s" "rp @ [''results'']" "[''results.json'']"] by auto
  then show ?thesis
    using assms by (simp add: getRunVideos_def getRunScreenshots_def getRunResults_def)
qed


theorem missing_artifacts_are_empty_witness:
  "get_run one_running ''r1'' = Some 0
   \<and> \<not> existsSync (fs one_running) ([''app'', ''runs'', ''r1''] @ [''cypress'', ''videos''])
   \<and> getRunVideos one_running ''r1'' = Inr []
   \<and> getRunScreenshots one_running ''r1'' = Inr []
   \<and> getRunResults one_running ''r1'' = None"
proof -
  have g: "get_run one_running ''r1'' = Some 0"
    by code_simp
  have p: "[''app'', ''runs'', ''r1''] = runPath (heap one_running ! 0)"
    by code_simp
  have v: "\<not> existsSync (fs one_running) ([''app'', ''runs'', ''r1''] @ [''cypress'', ''videos''])"
    by code_simp
  have c: "\<not> existsSync (fs one_running) ([''app'', ''runs'', ''r1''] @ [''cypress'', ''screenshots''])"
    by code_simp
  have r: "\<not> existsSync (fs one_running) ([''app'', ''runs'', ''r1''] @ [''results''])"
    by code_simp
  from missing_artifacts_are_empty[OF g p] g v c r show ?thesis
    by blast
qed

section \<open>An upload of the wrong type (\<^verbatim>\<open>/start\<close>)\<close>

text \<open>
  Claim C10. The name of the upload does not match \<^verbatim>\<open>/\.cy\.(js|ts|mjs)$/i\<close> and the
  two directories of the run can be made. If the name does not end in \<^verbatim>\<open>.zip\<close>,
  \<^verbatim>\<open>index.js\<close> answers 400 and changes nothing but the disk; if the lower-cased name does
  not end in \<^verbatim>\<open>.zip\<close>, so does the variant with the deployment fixes. The registry is
  as before, and the directory of the run and its work directory exist afterwards.
\<close>

theorem invalid_type_leaves_orphans:
  assumes "\<not> isSpecName (originalname file)"
    and "rp = runsDir @ [mk_runId stamp nano]"
    and "mkdirSync (fs s) rp = Inr f1"
    and "mkdirSync f1 (rp @ [''work'']) = Inr f2"
  shows "(\<not> endsWith (originalname file) ''.zip'' \<longrightarrow>
            start_index unzip s (Some file) bu stamp now nano
              = (s\<lparr> fs := f2 \<rparr>, Some (ErrorJson 400 invalidType), None))
       \<and> (\<not> endsWith (toLowerCase (originalname file)) ''.zip'' \<longrightarrow>
            start_fixed unzip s (Some file) bu stamp now nano
              = (s\<lparr> fs := f2 \<rparr>, ErrorJson 400 invalidType))
       \<and> runs (s\<lparr> fs := f2 \<rparr>) = runs s
       \<and> (\<exists>d. lookup f2 rp = Inr d \<and> isDirectory d)
       \<and> (\<exists>d. lookup f2 (rp @ [''work'']) = Inr d \<and> isDirectory d)"
proof -
  have made: "run_ops [\<lambda>f. mkdirSync f rp, \<lambda>f. mkdirSync f (rp @ [''work''])] (fs s) = (f2, None)"
    using assms(3,4) by simp
  have i: "\<not> endsWith (originalname file) ''.zip'' \<Longrightarrow>
      start_index unzip s (Some file) bu stamp now nano
        = (s\<lparr> fs := f2 \<rparr>, Some (ErrorJson 400 invalidType), None)"
    using assms(1) made unfolding start_index_def Let_def assms(2)[symmetric]
    by simp
  have f: "\<not> endsWith (toLowerCase (originalname file)) ''.zip'' \<Longrightarrow>
      start_fixed unzip s (Some file) bu stamp now nano
        = (s\<lparr> fs := f2 \<rparr>, ErrorJson 400 invalidType)"
    using assms(1) made unfolding start_fixed_def Let_def assms(2)[symmetric]
    by simp
  have w: "\<exists>d. lookup f2 (rp @ [''work'']) = Inr d \<and> isDirectory d"
    using assms(4) by (rule mkdirSync_lookup)
  then obtain d where "lookup f2 (rp @ [''work'']) = Inr d"
    by blast
  then obtain m where m: "lookup f2 rp = Inr m" and "lookup m [''work''] = Inr d"
    by (auto simp: lookup_append split: sum.splits)
  then have "isDirectory m"
    by (cases m) simp_all
  with m have r: "\<exists>d. lookup f2 rp = Inr d \<and> isDirectory d"
    by blast
  from i f w r show ?thesis by simp
qed


theorem invalid_type_leaves_orphans_witness:
  "start_index (\<lambda>b p f. Inl ZipError) (init_server (Dir []))
      (Some \<lparr> originalname = ''notes.txt'', buffer = ''hello'' \<rparr>) None
      ''2025-01-01T10:00:00.000Z'' 1735725600000 ''a1B2c3''
     = ((init_server (Dir []))
          \<lparr> fs := Dir [(''app'', Dir [(''runs'',
                   Dir [(''2025-01-01T10-00-00-000Z-a1B2c3'', Dir [(''work'', Dir [])])])])] \<rparr>,
        Some (ErrorJson 400 invalidType), None)
   \<and> start_fixed (\<lambda>b p f. Inl ZipError) (init_server (Dir []))
      (Some \<lparr> originalname = ''notes.txt'', buffer = ''hello'' \<rparr>) None
      ''2025-01-01T10:00:00.000Z'' 1735725600000 ''a1B2c3''
     = ((init_server (Dir []))
          \<lparr> fs := Dir [(''app'', Dir [(''runs'',
                   Dir [(''2025-01-01T10-00-00-000Z-a1B2c3'', Dir [(''work'', Dir [])])])])] \<rparr>,
        ErrorJson 400 invalidType)"
proof -
  let ?file = "\<lparr> originalname = ''notes.txt'', buffer = ''hello'' \<rparr>"
  let ?rp = "[''app'', ''runs'', ''2025-01-01T10-00-00-000Z-a1B2c3'']"
  let ?f1 = "Dir [(''app'', Dir [(''runs'', Dir [(''2025-01-01T10-00-00-000Z-a1B2c3'', Dir [])])])]"
  let ?f2 = "Dir [(''app'', Dir [(''runs'',
               Dir [(''2025-01-01T10-00-00-000Z-a1B2c3'', Dir [(''work'', Dir [])])])])]"
  have n: "\<not> isSpecName (originalname ?file)"
    by code_simp
  have p: "?rp = runsDir @ [mk_runId ''2025-01-01T10:00:00.000Z'' ''a1B2c3'']"
    by code_simp
  have m1: "mkdirSync (fs (init_server (Dir []))) ?rp = Inr ?f1"
    by code_simp
  have m2: "mkdirSync ?f1 (?rp @ [''work'']) = Inr ?f2"
    by code_simp
  have z: "\<not> endsWith (originalname ?file) ''.zip''"
    by code_simp
  have zl: "\<not> endsWith (toLowerCase (originalname ?file)) ''.zip''"
    by code_simp
  from invalid_type_leaves_orphans[OF n p m1 m2, of "\<lambda>b p f. Inl ZipError" None 1735725600000] z zl
  show ?thesis
    by blast
qed

section \<open>The retention sweep (\<^verbatim>\<open>cleanupOldRuns\<close> of \<^verbatim>\<open>index-improved.js\<close>)\<close>

lemma cleanupOldRuns_unfold:
  assumes "maxRunsRetention cfg = Num m" "0 \<le> m"
  shows "cleanupOldRuns cfg s = foldl cleanup_one (s, []) (drop (nat m) (runsArray s))"
  using assms by (auto simp: cleanupOldRuns_def toDelete_def js_gt_def slice_def)

lemma cleanup_one_log: "snd (cleanup_one acc e) = [] \<Longrightarrow> snd acc = []"
  by (auto simp: cleanup_one_def split: sum.splits)

lemma cleanup_fold_log: "snd (foldl cleanup_one acc es) = [] \<Longrightarrow> snd acc = []"
proof (induction es arbitrary: acc)
  case Nil
  then show ?case by simp
next
  case (Cons e es)
  then have "snd (cleanup_one acc e) = []" by simp
  then show ?case by (rule cleanup_one_log)
qed

lemma cleanup_one_ok:
  assumes "snd (cleanup_one acc e) = []"
  shows "\<exists>f. rmSync (fs (fst acc)) (runPath (snd e)) = Inr f
           \<and> fs (fst (cleanup_one acc e)) = f
           \<and> runs (fst (cleanup_one acc e)) = AList.delete (fst e) (runs (fst acc))
           \<and> heap (fst (cleanup_one acc e)) = heap (fst acc)"
  using assms by (auto simp: cleanup_one_def split: sum.splits)

lemma cleanup_fold_keeps_absent:
  "snd (foldl cleanup_one acc es) = [] \<Longrightarrow> \<not> existsSync (fs (fst acc)) p
     \<Longrightarrow> \<not> existsSync (fs (fst (foldl cleanup_one acc es))) p"
proof (induction es arbitrary: acc)
  case Nil
  then show ?case by simp
next
  case (Cons e es)
  from Cons.prems(1) have fin: "snd (foldl cleanup_one (cleanup_one acc e) es) = []"
    by simp
  then have "snd (cleanup_one acc e) = []"
    by (rule cleanup_fold_log)
  then obtain f where f: "rmSync (fs (fst acc)) (runPath (snd e)) = Inr f"
      "fs (fst (cleanup_one acc e)) = f"
    using cleanup_one_ok by blast
  from rmSync_keeps_absent[OF f(1) Cons.prems(2)] f(2)
  have "\<not> existsSync (fs (fst (cleanup_one acc e))) p"
    by simp
  from Cons.IH[OF fin this] show ?case by simp
qed

lemma cleanup_fold_step:
  assumes "snd (foldl cleanup_one acc (e # es)) = []"
  shows "snd (foldl cleanup_one (cleanup_one acc e) es) = []" and "snd (cleanup_one acc e) = []"
proof -
  show "snd (foldl cleanup_one (cleanup_one acc e) es) = []"
    using assms by simp
  then show "snd (cleanup_one acc e) = []"
    by (rule cleanup_fold_log)
qed

lemma cleanup_fold_runs:
  "snd (foldl cleanup_one acc es) = [] \<Longrightarrow>
   runs (fst (foldl cleanup_one acc es)) = filter (\<lambda>x. fst x \<notin> fst ` set es) (runs (fst acc))"
proof (induction es arbitrary: acc)
  case Nil
  then show ?case by simp
next
  case (Cons e es)
  note st = cleanup_fold_step[OF Cons.prems]
  from cleanup_one_ok[OF st(2)]
  have r: "runs (fst (cleanup_one acc e)) = AList.delete (fst e) (runs (fst acc))"
    by blast
  have d: "AList.delete (fst e) (runs (fst acc)) = filter (\<lambda>x. fst x \<noteq> fst e) (runs (fst acc))"
    by (auto simp: AList.delete_eq intro: filter_cong)
  have "runs (fst (foldl cleanup_one (cleanup_one acc e) es))
      = filter (\<lambda>x. fst x \<notin> fst ` set es) (filter (\<lambda>x. fst x \<noteq> fst e) (runs (fst acc)))"
    using Cons.IH[OF st(1)] r d by simp
  also have "\<dots> = filter (\<lambda>x. fst x \<notin> fst ` set (e # es)) (runs (fst acc))"
    by (auto intro: filter_cong)
  finally show ?case by simp
qed

lemma cleanup_fold_gone:
  "snd (foldl cleanup_one acc es) = [] \<Longrightarrow> e \<in> set es \<Longrightarrow>
   \<not> existsSync (fs (fst (foldl cleanup_one acc es))) (runPath (snd e))"
proof (induction es arbitrary: acc)
  case Nil
  then show ?case by simp
next
  case (Cons x es)
  note st = cleanup_fold_step[OF Cons.prems(1)]
  show ?case
  proof (cases "e = x")
    case True
    from cleanup_one_ok[OF st(2)] obtain f where
      f: "rmSync (fs (fst acc)) (runPath (snd x)) = Inr f" "fs (fst (cleanup_one acc x)) = f"
      by blast
    have "\<not> existsSync (fs (fst (cleanup_one acc x))) (runPath (snd x))"
      using rmSync_gone[OF f(1)] f(2) by simp
    from cleanup_fold_keeps_absent[OF st(1) this] True show ?thesis by simp
  next
    case False
    with Cons.prems(2) have "e \<in> set es" by simp
    from Cons.IH[OF st(1) this] show ?thesis by simp
  qed
qed

lemma cleanup_fold_heap:
  "heap (fst (foldl cleanup_one acc es)) = heap (fst acc)"
proof (induction es arbitrary: acc)
  case Nil
  show ?case by simp
next
  case (Cons e es)
  have "heap (fst (cleanup_one acc e)) = heap (fst acc)"
    by (simp add: cleanup_one_def split: sum.splits)
  with Cons.IH[of "cleanup_one acc e"] show ?case by simp
qed


lemma runsArray_ids: "fst ` set (runsArray s) = fst ` set (runs s)"
proof -
  have "set (runsArray s) = set (map (\<lambda>e. (fst e, heap s ! snd e)) (runs s))"
    by (simp add: runsArray_def)
  then show ?thesis by (auto simp: image_iff) force+
qed

lemma runsArray_length: "length (runsArray s) = length (runs s)"
  by (simp add: runsArray_def)

lemma runsArray_sorted: "sorted (map (\<lambda>e. - createdAt (snd e)) (runsArray s))"
  by (simp add: runsArray_def)

lemma runsArray_split_order:
  assumes "x \<in> set (drop n (runsArray s))" "y \<in> set (take n (runsArray s))"
  shows "createdAt (snd x) \<le> createdAt (snd y)"
proof -
  let ?k = "\<lambda>e. - createdAt (snd e)"
  have "sorted (map ?k (take n (runsArray s)) @ map ?k (drop n (runsArray s)))"
    using runsArray_sorted[of s] by (simp flip: map_append)
  then have "\<forall>a \<in> set (map ?k (take n (runsArray s))). \<forall>b \<in> set (map ?k (drop n (runsArray s))). a \<le> b"
    by (simp add: sorted_append)
  with assms have "?k y \<le> ?k x" by auto
  then show ?thesis by simp
qed

text \<open>
  Claim C5, as the code has it. The configured maximum is an integer \<open>m \<ge> 0\<close>, the
  registry is a \<^verbatim>\<open>Map\<close> (no id twice) and the sweep logs no failed removal. Then the
  registry holds at most \<open>m\<close> runs afterwards; the entries that went are those of
  \<open>toDelete\<close>, which is the list of the runs, newest first, without its first \<open>m\<close>:
  as many as were in excess, each a run of the registry, none newer than any run that
  stays; and the directory of each of them no longer exists.
\<close>

theorem sweep_bounds_registry:
  assumes "maxRunsRetention cfg = Num m" and "0 \<le> m"
    and "distinct (map fst (runs s))"
    and "cleanupOldRuns cfg s = (s', [])"
  shows "length (runs s') \<le> nat m
       \<and> runs s' = filter (\<lambda>x. fst x \<notin> fst ` set (toDelete cfg s)) (runs s)
       \<and> toDelete cfg s = drop (nat m) (runsArray s)
       \<and> length (toDelete cfg s) = length (runs s) - nat m
       \<and> (\<forall>x \<in> set (toDelete cfg s). \<exists>a. (fst x, a) \<in> set (runs s) \<and> snd x = heap s ! a)
       \<and> (\<forall>x \<in> set (toDelete cfg s). \<forall>y \<in> set (runs s').
             createdAt (snd x) \<le> createdAt (heap s ! snd y))
       \<and> (\<forall>x \<in> set (toDelete cfg s). \<not> existsSync (fs s') (runPath (snd x)))"
proof -
  let ?gone = "drop (nat m) (runsArray s)"
  let ?kept = "take (nat m) (runsArray s)"
  have td: "toDelete cfg s = ?gone"
    using assms(1,2) by (simp add: toDelete_def slice_def)
  have fold: "foldl cleanup_one (s, []) ?gone = (s', [])"
    using assms(4) cleanupOldRuns_unfold[OF assms(1,2), of s] by simp
  then have fin: "snd (foldl cleanup_one (s, []) ?gone) = []" and
    s': "s' = fst (foldl cleanup_one (s, []) ?gone)"
    by simp_all
  have r: "runs s' = filter (\<lambda>x. fst x \<notin> fst ` set ?gone) (runs s)"
    using cleanup_fold_runs[OF fin] s' by simp
  have ids: "fst ` set (runs s) = fst ` set ?kept \<union> fst ` set ?gone"
  proof -
    have "set (runsArray s) = set ?kept \<union> set ?gone"
      by (metis append_take_drop_id set_append)
    then show ?thesis
      using runsArray_ids[of s] by (metis image_Un)
  qed
  have sub: "fst ` set (runs s') \<subseteq> fst ` set ?kept"
    using r ids by auto
  have "distinct (map fst (runs s'))"
    using assms(3) r by (simp add: distinct_map_filter)
  then have "length (runs s') = card (fst ` set (runs s'))"
    by (metis distinct_card length_map set_map)
  also have "\<dots> \<le> card (fst ` set ?kept)"
    using sub by (simp add: card_mono)
  also have "\<dots> \<le> length ?kept"
    by (metis card_length length_map set_map)
  also have "\<dots> \<le> nat m"
    by simp
  finally have c1: "length (runs s') \<le> nat m" .
  have c4: "length (toDelete cfg s) = length (runs s) - nat m"
    using td by (simp add: runsArray_length)
  have c5: "\<exists>a. (fst x, a) \<in> set (runs s) \<and> snd x = heap s ! a" if "x \<in> set (toDelete cfg s)" for x
  proof -
    from that td have "x \<in> set (runsArray s)"
      by (auto dest: in_set_dropD)
    then have "x \<in> set (map (\<lambda>e. (fst e, heap s ! snd e)) (runs s))"
      by (simp add: runsArray_def)
    then show ?thesis by auto
  qed
  have c6: "createdAt (snd x) \<le> createdAt (heap s ! snd y)"
    if x: "x \<in> set (toDelete cfg s)" and y: "y \<in> set (runs s')" for x y
  proof -
    from y r have y1: "y \<in> set (runs s)" and y2: "fst y \<notin> fst ` set ?gone"
      by auto
    let ?y = "(fst y, heap s ! snd y)"
    from y1 have "?y \<in> set (map (\<lambda>e. (fst e, heap s ! snd e)) (runs s))"
      by auto
    then have "?y \<in> set (runsArray s)"
      by (simp add: runsArray_def)
    then have "?y \<in> set ?kept \<or> ?y \<in> set ?gone"
      by (metis append_take_drop_id set_append Un_iff)
    with y2 have "?y \<in> set ?kept"
      by force
    from runsArray_split_order[OF _ this] x td show ?thesis
      by simp
  qed
  have c7: "\<not> existsSync (fs s') (runPath (snd x))" if "x \<in> set (toDelete cfg s)" for x
    using cleanup_fold_gone[OF fin, of x] that td s' by simp
  from c1 r td c4 c5 c6 c7 show ?thesis
    by simp
qed


theorem sweep_bounds_registry_witness:
  "maxRunsRetention keep_one = Num 1 \<and> distinct (map fst (runs three_runs))
   \<and> snd (cleanupOldRuns keep_one three_runs) = []
   \<and> length (runs three_runs) = 3
   \<and> length (runs (fst (cleanupOldRuns keep_one three_runs))) \<le> nat 1
   \<and> map fst (toDelete keep_one three_runs) = [''r2'', ''r1'']
   \<and> \<not> existsSync (fs (fst (cleanupOldRuns keep_one three_runs))) [''app'', ''runs'', ''r1'']
   \<and> \<not> existsSync (fs (fst (cleanupOldRuns keep_one three_runs))) [''app'', ''runs'', ''r2'']"
proof -
  have m: "maxRunsRetention keep_one = Num 1"
    by code_simp
  have d: "distinct (map fst (runs three_runs))"
    by code_simp
  have l: "snd (cleanupOldRuns keep_one three_runs) = []"
    by code_simp
  have n: "length (runs three_runs) = 3"
    by code_simp
  have t: "map fst (toDelete keep_one three_runs) = [''r2'', ''r1'']"
    by code_simp
  have r1: "(''r1'', one_run ''r1'' 1000 Running) \<in> set (toDelete keep_one three_runs)"
    by code_simp
  have r2: "(''r2'', one_run ''r2'' 2000 Done) \<in> set (toDelete keep_one three_runs)"
    by code_simp
  have p1: "runPath (snd (''r1'', one_run ''r1'' 1000 Running)) = [''app'', ''runs'', ''r1'']"
    by code_simp
  have p2: "runPath (snd (''r2'', one_run ''r2'' 2000 Done)) = [''app'', ''runs'', ''r2'']"
    by code_simp
  have c: "cleanupOldRuns keep_one three_runs = (fst (cleanupOldRuns keep_one three_runs), [])"
    using l by (simp add: prod_eq_iff)
  have z: "(0::int) \<le> 1"
    by simp
  note swept = sweep_bounds_registry[OF m z d c]
  from swept have a: "length (runs (fst (cleanupOldRuns keep_one three_runs))) \<le> nat 1"
    by (rule conjunct1)
  from swept have g: "\<forall>x \<in> set (toDelete keep_one three_runs).
      \<not> existsSync (fs (fst (cleanupOldRuns keep_one three_runs))) (runPath (snd x))"
    by blast
  from g r1 p1 have g1: "\<not> existsSync (fs (fst (cleanupOldRuns keep_one three_runs))) [''app'', ''runs'', ''r1'']"
    by metis
  from g r2 p2 have g2: "\<not> existsSync (fs (fst (cleanupOldRuns keep_one three_runs))) [''app'', ''runs'', ''r2'']"
    by metis
  from m d l n a t g1 g2 show ?thesis
    by blast
qed


text \<open>
  Claim C5 as stated does not hold for every sweep: the directory of the older run
  cannot be removed, \<^verbatim>\<open>rmSync\<close> throws, the \<^verbatim>\<open>catch\<close> logs the id, and the run stays in
  the registry, which holds two runs afterwards although one is the maximum.
\<close>

theorem failed_removal_keeps_run:
  "maxRunsRetention keep_one = Num 1
   \<and> cleanupOldRuns keep_one locked_run = (locked_run, [''r1''])
   \<and> length (runs (fst (cleanupOldRuns keep_one locked_run))) = 2"
  by code_simp

text \<open>
  Claim C4 as stated does not hold: with a maximum of one run, the sweep evicts the
  oldest run, which is running, and removes its directory; with a maximum of no run it
  also evicts the run that has just been queued.
\<close>

theorem sweep_evicts_unfinished_runs:
  "map status (heap three_runs) = [Running, Done, Queued]
   \<and> runs three_runs = [(''r1'', 0), (''r2'', 1), (''r3'', 2)]
   \<and> runs (fst (cleanupOldRuns keep_one three_runs)) = [(''r3'', 2)]
   \<and> \<not> existsSync (fs (fst (cleanupOldRuns keep_one three_runs))) [''app'', ''runs'', ''r1'']
   \<and> runs (fst (cleanupOldRuns keep_none three_runs)) = []
   \<and> \<not> existsSync (fs (fst (cleanupOldRuns keep_none three_runs))) [''app'', ''runs'', ''r3'']"
  by code_simp

lemma insort_key_map_same:
  "(\<And>x. k (g x) = k x) \<Longrightarrow> insort_key k (g x) (map g ys) = map g (insort_key k x ys)"
  by (induction ys) simp_all

lemma sort_key_map_same:
  "(\<And>x. k (g x) = k x) \<Longrightarrow> sort_key k (map g xs) = map g (sort_key k xs)"
  by (induction xs) (simp_all add: insort_key_map_same)

lemma runsArray_restatus:
  assumes "\<forall>e \<in> set (runs s). snd e < length (heap s)"
  shows "runsArray (restatus f s)
           = map (\<lambda>e. (fst e, (snd e)\<lparr> status := f (snd e) \<rparr>)) (runsArray s)"
proof -
  let ?g = "\<lambda>e. (fst e, (snd e)\<lparr> status := f (snd e) \<rparr>)"
  have r: "runs (restatus f s) = runs s"
    by (simp add: restatus_def)
  have "map (\<lambda>e. (fst e, heap (restatus f s) ! snd e)) (runs s)
      = map ?g (map (\<lambda>e. (fst e, heap s ! snd e)) (runs s))"
    using assms by (simp add: restatus_def)
  then have "runsArray (restatus f s)
      = sort_key (\<lambda>e. - createdAt (snd e)) (map ?g (map (\<lambda>e. (fst e, heap s ! snd e)) (runs s)))"
    unfolding runsArray_def r by (rule arg_cong)
  also have "\<dots> = map ?g (sort_key (\<lambda>e. - createdAt (snd e)) (map (\<lambda>e. (fst e, heap s ! snd e)) (runs s)))"
    by (rule sort_key_map_same) simp
  finally show ?thesis
    by (simp only: runsArray_def)
qed

lemma cleanup_one_same:
  assumes "runs (fst acc) = runs (fst acc')" "fs (fst acc) = fs (fst acc')" "snd acc = snd acc'"
    and "fst e = fst e'" "runPath (snd e) = runPath (snd e')"
  shows "runs (fst (cleanup_one acc e)) = runs (fst (cleanup_one acc' e'))
       \<and> fs (fst (cleanup_one acc e)) = fs (fst (cleanup_one acc' e'))
       \<and> snd (cleanup_one acc e) = snd (cleanup_one acc' e')"
  using assms by (simp add: cleanup_one_def split: sum.splits)

lemma cleanup_fold_same:
  assumes "\<And>e. fst (g e) = fst e" "\<And>e. runPath (snd (g e)) = runPath (snd e)"
  shows "runs (fst acc) = runs (fst acc') \<Longrightarrow> fs (fst acc) = fs (fst acc') \<Longrightarrow> snd acc = snd acc'
    \<Longrightarrow> runs (fst (foldl cleanup_one acc (map g es))) = runs (fst (foldl cleanup_one acc' es))
       \<and> fs (fst (foldl cleanup_one acc (map g es))) = fs (fst (foldl cleanup_one acc' es))
       \<and> snd (foldl cleanup_one acc (map g es)) = snd (foldl cleanup_one acc' es)"
proof (induction es arbitrary: acc acc')
  case Nil
  then show ?case by simp
next
  case (Cons e es)
  from cleanup_one_same[OF Cons.prems assms(1)[of e] assms(2)[of e]]
  have "runs (fst (cleanup_one acc (g e))) = runs (fst (cleanup_one acc' e))"
    "fs (fst (cleanup_one acc (g e))) = fs (fst (cleanup_one acc' e))"
    "snd (cleanup_one acc (g e)) = snd (cleanup_one acc' e)"
    by simp_all
  from Cons.IH[OF this] show ?case by simp
qed

text \<open>
  Claim C4, as the code has it. The sweep never looks at the status: when the entries
  of the registry point to run objects, the registry, the disk and the logged failures
  after the sweep are the same whatever the statuses of the runs are. A run is evicted
  for its place in the order of creation alone.
\<close>

theorem sweep_ignores_status:
  assumes "\<forall>e \<in> set (runs s). snd e < length (heap s)"
  shows "runs (fst (cleanupOldRuns cfg (restatus f s))) = runs (fst (cleanupOldRuns cfg s))
       \<and> fs (fst (cleanupOldRuns cfg (restatus f s))) = fs (fst (cleanupOldRuns cfg s))
       \<and> snd (cleanupOldRuns cfg (restatus f s)) = snd (cleanupOldRuns cfg s)"
proof -
  let ?g = "\<lambda>e. (fst e, (snd e)\<lparr> status := f (snd e) \<rparr>)"
  have ra: "runsArray (restatus f s) = map ?g (runsArray s)"
    using assms by (rule runsArray_restatus)
  have td: "toDelete cfg (restatus f s) = map ?g (toDelete cfg s)"
    by (cases "maxRunsRetention cfg") (simp_all add: toDelete_def slice_def ra drop_map)
  have same: "runs (fst (restatus f s, [])) = runs (fst (s, []))"
    "fs (fst (restatus f s, [])) = fs (fst (s, []))"
    "snd (restatus f s, []) = snd (s, [])"
    by (simp_all add: restatus_def)
  show ?thesis
  proof (cases "js_gt (length (runsArray s)) (maxRunsRetention cfg)")
    case True
    then show ?thesis
      using cleanup_fold_same[of ?g "(restatus f s, [])" "(s, [])" "toDelete cfg s", OF _ _ same]
      by (simp add: cleanupOldRuns_def ra td)
  next
    case False
    then show ?thesis
      using same by (simp add: cleanupOldRuns_def ra)
  qed
qed

theorem sweep_ignores_status_witness:
  "runs (fst (cleanupOldRuns keep_one (restatus (\<lambda>r. Done) three_runs)))
     = runs (fst (cleanupOldRuns keep_one three_runs))
   \<and> runs (fst (cleanupOldRuns keep_one three_runs)) = [(''r3'', 2)]
   \<and> map status (heap (restatus (\<lambda>r. Done) three_runs)) = [Done, Done, Done]
   \<and> map status (heap three_runs) = [Running, Done, Queued]"
proof -
  have h: "\<forall>e \<in> set (runs three_runs). snd e < length (heap three_runs)"
    by code_simp
  have v: "runs (fst (cleanupOldRuns keep_one three_runs)) = [(''r3'', 2)]"
    by code_simp
  have a: "map status (heap (restatus (\<lambda>r. Done) three_runs)) = [Done, Done, Done]"
    by code_simp
  have b: "map status (heap three_runs) = [Running, Done, Queued]"
    by code_simp
  from sweep_ignores_status[OF h, of keep_one "\<lambda>r. Done"] v a b show ?thesis
    by simp
qed

section \<open>The status of a run (\<^verbatim>\<open>index.js\<close>)\<close>

lemma inv3_parts:
  assumes "inv3 h aw ps"
  shows "\<And>t. t \<in> set aw \<Longrightarrow> trun t < length h \<and> status (h ! trun t) = Running"
    and "\<And>i. i < length ps \<Longrightarrow> palive (ps ! i) \<Longrightarrow>
           prun (ps ! i) < length h \<and> status (h ! prun (ps ! i)) = Running"
    and "distinct (map trun aw)"
    and "\<And>i j. i < length ps \<Longrightarrow> j < length ps \<Longrightarrow> palive (ps ! i) \<Longrightarrow> palive (ps ! j)
           \<Longrightarrow> prun (ps ! i) = prun (ps ! j) \<Longrightarrow> i = j"
    and "\<And>t i. t \<in> set aw \<Longrightarrow> i < length ps \<Longrightarrow> palive (ps ! i) \<Longrightarrow> trun t \<noteq> prun (ps ! i)"
  using assms unfolding inv3_def by blast+

lemma inv3_I:
  assumes "\<And>t. t \<in> set aw \<Longrightarrow> trun t < length h \<and> status (h ! trun t) = Running"
    and "\<And>i. i < length ps \<Longrightarrow> palive (ps ! i) \<Longrightarrow>
           prun (ps ! i) < length h \<and> status (h ! prun (ps ! i)) = Running"
    and "distinct (map trun aw)"
    and "\<And>i j. i < length ps \<Longrightarrow> j < length ps \<Longrightarrow> palive (ps ! i) \<Longrightarrow> palive (ps ! j)
           \<Longrightarrow> prun (ps ! i) = prun (ps ! j) \<Longrightarrow> i = j"
    and "\<And>t i. t \<in> set aw \<Longrightarrow> i < length ps \<Longrightarrow> palive (ps ! i) \<Longrightarrow> trun t \<noteq> prun (ps ! i)"
  shows "inv3 h aw ps"
  unfolding inv3_def using assms by blast

lemma inv3_created:
  assumes "inv3 h aw ps" "status r = Running"
  shows "inv3 (h @ [r]) aw ps"
proof (rule inv3_I)
  note P = inv3_parts[OF assms(1)]
  show "trun t < length (h @ [r]) \<and> status ((h @ [r]) ! trun t) = Running" if "t \<in> set aw" for t
    using P(1)[OF that] by (simp add: nth_append)
  show "prun (ps ! i) < length (h @ [r]) \<and> status ((h @ [r]) ! prun (ps ! i)) = Running"
    if "i < length ps" "palive (ps ! i)" for i
    using P(2)[OF that] by (simp add: nth_append)
  show "distinct (map trun aw)" by (rule P(3))
  show "i = j" if "i < length ps" "j < length ps" "palive (ps ! i)" "palive (ps ! j)"
    "prun (ps ! i) = prun (ps ! j)" for i j
    using that by (rule P(4))
  show "trun t \<noteq> prun (ps ! i)" if "t \<in> set aw" "i < length ps" "palive (ps ! i)" for t i
    using that by (rule P(5))
qed

lemma inv3_begun:
  assumes "inv3 h aw ps" "status r = Running" "trun tk = length h"
  shows "inv3 (h @ [r]) (aw @ [tk]) ps"
proof (rule inv3_I)
  note P = inv3_parts[OF assms(1)]
  show "trun t < length (h @ [r]) \<and> status ((h @ [r]) ! trun t) = Running" if "t \<in> set (aw @ [tk])" for t
  proof (cases "t = tk")
    case True
    with assms(2,3) show ?thesis by simp
  next
    case False
    with that have "t \<in> set aw" by simp
    from P(1)[OF this] show ?thesis by (simp add: nth_append)
  qed
  show "prun (ps ! i) < length (h @ [r]) \<and> status ((h @ [r]) ! prun (ps ! i)) = Running"
    if "i < length ps" "palive (ps ! i)" for i
    using P(2)[OF that] by (simp add: nth_append)
  have "trun tk \<notin> set (map trun aw)"
  proof
    assume "trun tk \<in> set (map trun aw)"
    then obtain t where "t \<in> set aw" "trun t = trun tk" by auto
    with P(1)[of t] assms(3) show False by simp
  qed
  with P(3) show "distinct (map trun (aw @ [tk]))" by simp
  show "i = j" if "i < length ps" "j < length ps" "palive (ps ! i)" "palive (ps ! j)"
    "prun (ps ! i) = prun (ps ! j)" for i j
    using that by (rule P(4))
  show "trun t \<noteq> prun (ps ! i)" if "t \<in> set (aw @ [tk])" "i < length ps" "palive (ps ! i)" for t i
  proof (cases "t = tk")
    case True
    with P(2)[OF that(2,3)] assms(3) show ?thesis by simp
  next
    case False
    with that(1) have "t \<in> set aw" by simp
    from P(5)[OF this that(2,3)] show ?thesis .
  qed
qed

lemma distinct_without_nth:
  assumes "distinct (map f xs)" "i < length xs"
  shows "distinct (map f (take i xs @ drop (Suc i) xs))"
    and "f (xs ! i) \<notin> f ` set (take i xs @ drop (Suc i) xs)"
proof -
  have "xs = take i xs @ xs ! i # drop (Suc i) xs"
    using assms(2) by (rule id_take_nth_drop)
  then have "distinct (map f (take i xs @ xs ! i # drop (Suc i) xs))"
    using assms(1) by simp
  then show "distinct (map f (take i xs @ drop (Suc i) xs))"
    and "f (xs ! i) \<notin> f ` set (take i xs @ drop (Suc i) xs)"
    by auto
qed

lemma inv3_spawned:
  assumes "inv3 h aw ps" "i < length aw" "prun p = trun (aw ! i)" "palive p"
  shows "inv3 h (take i aw @ drop (Suc i) aw) (ps @ [p])"
proof (rule inv3_I)
  let ?aw = "take i aw @ drop (Suc i) aw"
  note P = inv3_parts[OF assms(1)]
  have sub: "t \<in> set aw" if "t \<in> set ?aw" for t
    using that by (auto dest: in_set_takeD in_set_dropD)
  have mem: "aw ! i \<in> set aw"
    using assms(2) by simp
  have notin: "trun (aw ! i) \<notin> trun ` set ?aw"
    using distinct_without_nth(2)[OF P(3) assms(2)] .
  have nth_old: "(ps @ [p]) ! j = ps ! j" if "j < length ps" for j
    using that by (simp add: nth_append)
  have nth_new: "(ps @ [p]) ! j = p" if "j < length (ps @ [p])" "\<not> j < length ps" for j
    using that by (simp add: nth_append less_Suc_eq)
  show "trun t < length h \<and> status (h ! trun t) = Running" if "t \<in> set ?aw" for t
    using P(1)[OF sub[OF that]] .
  show "prun ((ps @ [p]) ! j) < length h \<and> status (h ! prun ((ps @ [p]) ! j)) = Running"
    if "j < length (ps @ [p])" "palive ((ps @ [p]) ! j)" for j
  proof (cases "j < length ps")
    case True
    with that P(2)[of j] show ?thesis by (simp add: nth_old)
  next
    case False
    with that(1) P(1)[OF mem] assms(3) show ?thesis by (simp add: nth_new)
  qed
  show "distinct (map trun ?aw)"
    using distinct_without_nth(1)[OF P(3) assms(2)] .
  show "j = k" if "j < length (ps @ [p])" "k < length (ps @ [p])" "palive ((ps @ [p]) ! j)"
    "palive ((ps @ [p]) ! k)" "prun ((ps @ [p]) ! j) = prun ((ps @ [p]) ! k)" for j k
  proof (cases "j < length ps"; cases "k < length ps")
    assume "j < length ps" "k < length ps"
    with that P(4)[of j k] show ?thesis by (simp add: nth_old)
  next
    assume jk: "j < length ps" "\<not> k < length ps"
    with that have "palive (ps ! j)" "prun (ps ! j) = trun (aw ! i)"
      using assms(3) by (simp_all add: nth_old nth_new)
    with P(5)[OF mem jk(1)] show ?thesis by simp
  next
    assume jk: "\<not> j < length ps" "k < length ps"
    with that have "palive (ps ! k)" "prun (ps ! k) = trun (aw ! i)"
      using assms(3) by (simp_all add: nth_old nth_new)
    with P(5)[OF mem jk(2)] show ?thesis by simp
  next
    assume "\<not> j < length ps" "\<not> k < length ps"
    with that(1,2) show ?thesis by simp
  qed
  show "trun t \<noteq> prun ((ps @ [p]) ! j)"
    if "t \<in> set ?aw" "j < length (ps @ [p])" "palive ((ps @ [p]) ! j)" for t j
  proof (cases "j < length ps")
    case True
    with that P(5)[OF sub[OF that(1)], of j] show ?thesis by (simp add: nth_old)
  next
    case False
    with that(2) have pj: "(ps @ [p]) ! j = p" by (simp add: nth_new)
    from that(1) have "trun t \<in> trun ` set ?aw" by (rule imageI)
    with notin have "trun t \<noteq> trun (aw ! i)" by metis
    with pj assms(3) show ?thesis by simp
  qed
qed

lemma inv3_dropped:
  assumes "inv3 h aw ps" "i < length aw"
  shows "inv3 h (take i aw @ drop (Suc i) aw) ps"
proof (rule inv3_I)
  let ?aw = "take i aw @ drop (Suc i) aw"
  note P = inv3_parts[OF assms(1)]
  have sub: "t \<in> set aw" if "t \<in> set ?aw" for t
    using that by (auto dest: in_set_takeD in_set_dropD)
  show "trun t < length h \<and> status (h ! trun t) = Running" if "t \<in> set ?aw" for t
    using P(1)[OF sub[OF that]] .
  show "prun (ps ! j) < length h \<and> status (h ! prun (ps ! j)) = Running"
    if "j < length ps" "palive (ps ! j)" for j
    using P(2)[OF that] .
  show "distinct (map trun ?aw)"
    using distinct_without_nth(1)[OF P(3) assms(2)] .
  show "j = k" if "j < length ps" "k < length ps" "palive (ps ! j)" "palive (ps ! k)"
    "prun (ps ! j) = prun (ps ! k)" for j k
    using P(4)[OF that] .
  show "trun t \<noteq> prun (ps ! j)" if "t \<in> set ?aw" "j < length ps" "palive (ps ! j)" for t j
    using P(5)[OF sub[OF that(1)] that(2,3)] .
qed

lemma inv3_closed:
  assumes "inv3 h aw ps" "pid < length ps" "palive (ps ! pid)"
  shows "inv3 (h[prun (ps ! pid) := (h ! prun (ps ! pid))\<lparr> status := st \<rparr>]) aw
           (ps[pid := (ps ! pid)\<lparr> palive := False \<rparr>])"
proof (rule inv3_I)
  let ?a = "prun (ps ! pid)"
  let ?h = "h[?a := (h ! ?a)\<lparr> status := st \<rparr>]"
  let ?ps = "ps[pid := (ps ! pid)\<lparr> palive := False \<rparr>]"
  note P = inv3_parts[OF assms(1)]
  have alive: "palive (?ps ! j) \<longleftrightarrow> j \<noteq> pid \<and> palive (ps ! j)" if "j < length ps" for j
    using that assms(2) by (cases "j = pid") (simp_all add: nth_list_update)
  have same: "prun (?ps ! j) = prun (ps ! j)" if "j < length ps" for j
    using that assms(2) by (cases "j = pid") (simp_all add: nth_list_update)
  have other: "?h ! b = h ! b" if "b \<noteq> ?a" for b
    using that by simp
  show "trun t < length ?h \<and> status (?h ! trun t) = Running" if "t \<in> set aw" for t
  proof -
    from P(5)[OF that assms(2,3)] have "trun t \<noteq> ?a" .
    with P(1)[OF that] show ?thesis by simp
  qed
  show "prun (?ps ! j) < length ?h \<and> status (?h ! prun (?ps ! j)) = Running"
    if "j < length ?ps" "palive (?ps ! j)" for j
  proof -
    from that have jl: "j < length ps" by simp
    from that(2) alive[OF jl] have jp: "j \<noteq> pid" and ja: "palive (ps ! j)" by simp_all
    from P(4)[OF jl assms(2) ja assms(3)] jp have "prun (ps ! j) \<noteq> ?a" by blast
    with P(2)[OF jl ja] same[OF jl] show ?thesis by simp
  qed
  show "distinct (map trun aw)" by (rule P(3))
  show "i = j" if "i < length ?ps" "j < length ?ps" "palive (?ps ! i)" "palive (?ps ! j)"
    "prun (?ps ! i) = prun (?ps ! j)" for i j
  proof -
    from that have il: "i < length ps" and jl: "j < length ps" by simp_all
    from that alive[OF il] alive[OF jl] same[OF il] same[OF jl]
    have "palive (ps ! i)" "palive (ps ! j)" "prun (ps ! i) = prun (ps ! j)" by simp_all
    with P(4)[OF il jl] show "i = j" by blast
  qed
  show "trun t \<noteq> prun (?ps ! i)" if "t \<in> set aw" "i < length ?ps" "palive (?ps ! i)" for t i
  proof -
    from that have il: "i < length ps" by simp
    from that(3) alive[OF il] have "palive (ps ! i)" by simp
    from P(5)[OF that(1) il this] same[OF il] show ?thesis by simp
  qed
qed

lemma inv3_core_step:
  "core_step h aw ps h' aw' ps' \<Longrightarrow> inv3 h aw ps \<Longrightarrow> inv3 h' aw' ps'"
  by (induction rule: core_step.induct)
     (auto intro: inv3_created inv3_begun inv3_spawned inv3_dropped inv3_closed)


lemma onClose_index_core:
  "awaiting (fst (onClose_index s pid code)) = awaiting s"
  "procs (fst (onClose_index s pid code)) = (procs s)[pid := (procs s ! pid)\<lparr> palive := False \<rparr>]"
  by (simp_all add: onClose_index_def Let_def split: option.splits)

lemma runCypress_begin_index_core:
  assumes "get_run s runId = Some a" "a < length (heap s)"
  shows "heap (fst (runCypress_begin_index s runId)) = (heap s)[a := (heap s ! a)\<lparr> status := Running \<rparr>]"
    and "procs (fst (runCypress_begin_index s runId)) = procs s"
    and "awaiting (fst (runCypress_begin_index s runId)) = awaiting s
       \<or> (\<exists>tk. awaiting (fst (runCypress_begin_index s runId)) = awaiting s @ [tk] \<and> trun tk = a)"
  using assms
  by (simp_all add: runCypress_begin_index_def Let_def set_status_def split: option.splits)

lemma register_run_core:
  "get_run (register_run s runId now bu name rp wp) runId = Some (length (heap s))"
  "heap (register_run s runId now bu name rp wp)
     = heap s @ [\<lparr> run_id = runId, createdAt = now, status = Queued, baseUrl = bu,
                   filename = name, runPath = rp, workPath = wp \<rparr>]"
  "procs (register_run s runId now bu name rp wp) = procs s"
  "awaiting (register_run s runId now bu name rp wp) = awaiting s"
  by (simp_all add: register_run_def get_run_def update_conv')

lemma accept_index_core:
  "core_step (heap s) (awaiting s) (procs s)
     (heap (fst (accept_index s runId now bu name rp wp)))
     (awaiting (fst (accept_index s runId now bu name rp wp)))
     (procs (fst (accept_index s runId now bu name rp wp)))"
proof -
  let ?s1 = "register_run s runId now bu name rp wp"
  let ?r0 = "\<lparr> run_id = runId, createdAt = now, status = Queued, baseUrl = bu,
               filename = name, runPath = rp, workPath = wp \<rparr>"
  let ?s2 = "fst (runCypress_begin_index ?s1 runId)"
  have g: "get_run ?s1 runId = Some (length (heap s))"
    by (rule register_run_core)
  have l: "length (heap s) < length (heap ?s1)"
    by (simp add: register_run_core)
  note B = runCypress_begin_index_core[OF g l]
  have h: "heap ?s2 = heap s @ [?r0\<lparr> status := Running \<rparr>]"
    using B(1) by (simp add: register_run_core)
  have p: "procs ?s2 = procs s"
    using B(2) by (simp add: register_run_core)
  have s2: "fst (accept_index s runId now bu name rp wp) = ?s2"
    by (simp add: accept_index_def Let_def)
  from B(3) show ?thesis
  proof
    assume "awaiting ?s2 = awaiting ?s1"
    then have "awaiting ?s2 = awaiting s"
      by (simp add: register_run_core)
    with h p s2 show ?thesis
      using core_step.created[of "?r0\<lparr> status := Running \<rparr>" "heap s" "awaiting s" "procs s"]
      by simp
  next
    assume "\<exists>tk. awaiting ?s2 = awaiting ?s1 @ [tk] \<and> trun tk = length (heap s)"
    then obtain tk where "awaiting ?s2 = awaiting s @ [tk]" "trun tk = length (heap s)"
      by (auto simp: register_run_core)
    with h p s2 show ?thesis
      using core_step.begun[of "?r0\<lparr> status := Running \<rparr>" tk "heap s" "awaiting s" "procs s"]
      by simp
  qed
qed

lemma start_index_core:
  "core_step (heap s) (awaiting s) (procs s)
     (heap (fst (start_index unzip s upl bu stamp now nano)))
     (awaiting (fst (start_index unzip s upl bu stamp now nano)))
     (procs (fst (start_index unzip s upl bu stamp now nano)))"
proof (cases upl)
  case None
  then show ?thesis
    by (simp add: start_index_def core_step.same)
next
  case (Some up)
  have acc: "core_step (heap s) (awaiting s) (procs s)
     (heap (fst (accept_index (s\<lparr> fs := f \<rparr>) runId now bu name rp wp)))
     (awaiting (fst (accept_index (s\<lparr> fs := f \<rparr>) runId now bu name rp wp)))
     (procs (fst (accept_index (s\<lparr> fs := f \<rparr>) runId now bu name rp wp)))" for f runId name rp wp
    using accept_index_core[of "s\<lparr> fs := f \<rparr>" runId now bu name rp wp] by simp
  show ?thesis
    unfolding start_index_def Some option.case Let_def
    by (auto split: option.splits sum.splits simp: core_step.same acc)
qed

lemma spawn_index_core:
  "core_step (heap s) (awaiting s) (procs s)
     (heap (fst (runCypress_spawn_index s i thrown)))
     (awaiting (fst (runCypress_spawn_index s i thrown)))
     (procs (fst (runCypress_spawn_index s i thrown)))"
proof (cases "i < length (awaiting s)")
  case True
  then show ?thesis
    by (cases thrown)
       (simp_all add: runCypress_spawn_index_def Let_def core_step.spawned core_step.dropped)
next
  case False
  then show ?thesis
    by (simp add: runCypress_spawn_index_def core_step.same)
qed

lemma close_index_core:
  assumes "live s pid"
  shows "core_step (heap s) (awaiting s) (procs s)
     (heap (fst (onClose_index s pid code))) (awaiting (fst (onClose_index s pid code)))
     (procs (fst (onClose_index s pid code)))"
  using assms
    core_step.closed[of pid "procs s" "if code = Some 0 then Done else Failed" "heap s" "awaiting s"]
  by (simp add: live_def onClose_index_heap onClose_index_core)

lemma quiet_fields [simp]:
  "heap (fst (stream_index s runId res)) = heap s"
  "awaiting (fst (stream_index s runId res)) = awaiting s"
  "procs (fst (stream_index s runId res)) = procs s"
  "heap (stream_closed s runId res) = heap s"
  "awaiting (stream_closed s runId res) = awaiting s"
  "procs (stream_closed s runId res) = procs s"
  "heap (end_clients s i) = heap s"
  "awaiting (end_clients s i) = awaiting s"
  "procs (end_clients s i) = procs s"
  by (simp_all add: stream_index_def stream_closed_def end_clients_def Let_def)

lemma step_index_core:
  "core_step (heap s) (awaiting s) (procs s)
     (heap (fst (step_index unzip s ev))) (awaiting (fst (step_index unzip s ev)))
     (procs (fst (step_index unzip s ev)))"
proof (cases ev)
  case (PostStart upl bu stamp now nano)
  then show ?thesis
    using start_index_core[of s unzip upl bu stamp now nano]
    by (simp add: step_index_def Let_def)
next
  case (Resume i thrown)
  then show ?thesis
    using spawn_index_core[of s i thrown] by (simp add: step_index_def)
next
  case (ProcClose pid code)
  then show ?thesis
    using close_index_core[of s pid code] by (simp add: step_index_def core_step.same)
qed (simp_all add: step_index_def core_step.same)

lemma inv_index_init: "inv_index (init_server root)"
  by (simp add: inv_index_def inv3_def init_server_def)

lemma reachable_index_inv: "reachable_index unzip s \<Longrightarrow> inv_index s"
proof (induction rule: reachable_index.induct)
  case (reach_init root)
  show ?case by (rule inv_index_init)
next
  case (reach_step s ev)
  then show ?case
    unfolding inv_index_def using inv3_core_step[OF step_index_core] by blast
qed


lemma follows_path_refl: "follows_path st st"
  by (cases st) simp_all

lemma core_step_status:
  assumes "core_step h aw ps h' aw' ps'" "inv3 h aw ps" "a < length h"
  shows "follows_path (status (h ! a)) (status (h' ! a)) \<and> length h \<le> length h'
       \<and> (\<forall>b. length h \<le> b \<and> b < length h' \<longrightarrow> status (h' ! b) = Running)"
  using assms
proof (induction rule: core_step.induct)
  case (same h aw ps)
  then show ?case by (auto simp: follows_path_refl)
next
  case (created r h aw ps)
  then show ?case by (auto simp: nth_append follows_path_refl less_Suc_eq)
next
  case (begun r tk h aw ps)
  then show ?case by (auto simp: nth_append follows_path_refl less_Suc_eq)
next
  case (spawned i aw p h ps)
  then show ?case by (auto simp: follows_path_refl)
next
  case (dropped i aw h ps)
  then show ?case by (auto simp: follows_path_refl)
next
  case (closed pid ps st h aw)
  show ?case
  proof (cases "a = prun (ps ! pid)")
    case True
    from inv3_parts(2)[OF closed.prems(1) closed.hyps(1,2)] True
    have "status (h ! a) = Running" by simp
    with True closed.hyps(3) closed.prems(2) show ?thesis by auto
  next
    case False
    then show ?thesis by (auto simp: follows_path_refl)
  qed
qed

lemma reachable_run_events:
  "reachable_index unzip s \<Longrightarrow> reachable_index unzip (run_events unzip s evs)"
proof (induction evs arbitrary: s)
  case Nil
  then show ?case by (simp add: run_events_def)
next
  case (Cons ev evs)
  from Cons.IH[OF reach_step[OF Cons.prems, of ev]] show ?case
    by (simp add: run_events_def)
qed

text \<open>
  Claim C1. In every state that \<^verbatim>\<open>index.js\<close> can reach, whatever event comes next, the
  status of every run object stays on the path \<^verbatim>\<open>queued\<close>, \<^verbatim>\<open>running\<close>, then
  \<^verbatim>\<open>done\<close> or \<^verbatim>\<open>failed\<close>: a status that is \<^verbatim>\<open>done\<close> or \<^verbatim>\<open>failed\<close> is never
  written again, and nothing goes back. No run object disappears, and a run object made
  by the event is \<^verbatim>\<open>'running'\<close> when the event is over: \<^verbatim>\<open>runs.set\<close> makes it as
  \<^verbatim>\<open>'queued'\<close>, and \<^verbatim>\<open>runCypress\<close>, which the same handler calls, writes
  \<^verbatim>\<open>'running'\<close> first. (\<^verbatim>\<open>index.js\<close> never goes from \<^verbatim>\<open>queued\<close> to \<^verbatim>\<open>failed\<close>.)
\<close>

theorem status_follows_path_index:
  assumes "reachable_index unzip s" and "a < length (heap s)"
    and "s' = fst (step_index unzip s ev)"
  shows "follows_path (status (heap s ! a)) (status (heap s' ! a))
       \<and> length (heap s) \<le> length (heap s')
       \<and> (\<forall>b. length (heap s) \<le> b \<and> b < length (heap s') \<longrightarrow> status (heap s' ! b) = Running)
       \<and> status (heap (register_run s runId now bu name rp wp) ! length (heap s)) = Queued"
proof -
  have "inv3 (heap s) (awaiting s) (procs s)"
    using reachable_index_inv[OF assms(1)] by (simp add: inv_index_def)
  from core_step_status[OF step_index_core this assms(2), of unzip ev] assms(3)
  show ?thesis
    by (simp add: register_run_core)
qed

theorem status_follows_path_index_witness:
  "reachable_index no_zip (run_events no_zip (init_server (Dir [])) [upload_spec, Resume 0 None])
   \<and> 0 < length (heap (run_events no_zip (init_server (Dir [])) [upload_spec, Resume 0 None]))
   \<and> status (heap (run_events no_zip (init_server (Dir [])) [upload_spec, Resume 0 None]) ! 0) = Running
   \<and> status (heap (run_events no_zip (init_server (Dir []))
                      [upload_spec, Resume 0 None, ProcClose 0 (Some 0)]) ! 0) = Done
   \<and> status (heap (run_events no_zip (init_server (Dir []))
                      [upload_spec, Resume 0 None, ProcClose 0 (Some 0), ProcClose 0 (Some 1)]) ! 0) = Done
   \<and> follows_path
        (status (heap (run_events no_zip (init_server (Dir [])) [upload_spec, Resume 0 None]) ! 0))
        (status (heap (fst (step_index no_zip
           (run_events no_zip (init_server (Dir [])) [upload_spec, Resume 0 None])
           (ProcClose 0 (Some 0)))) ! 0))"
proof -
  let ?s = "run_events no_zip (init_server (Dir [])) [upload_spec, Resume 0 None]"
  have r: "reachable_index no_zip ?s"
    by (rule reachable_run_events) (rule reach_init)
  have l: "0 < length (heap ?s)"
    by code_simp
  have a: "status (heap ?s ! 0) = Running"
    by code_simp
  have b: "status (heap (run_events no_zip (init_server (Dir []))
                      [upload_spec, Resume 0 None, ProcClose 0 (Some 0)]) ! 0) = Done"
    by code_simp
  have c: "status (heap (run_events no_zip (init_server (Dir []))
                      [upload_spec, Resume 0 None, ProcClose 0 (Some 0), ProcClose 0 (Some 1)]) ! 0) = Done"
    by code_simp
  from status_follows_path_index[OF r l refl, of "ProcClose 0 (Some 0)"]
  have "follows_path (status (heap ?s ! 0))
          (status (heap (fst (step_index no_zip ?s (ProcClose 0 (Some 0)))) ! 0))"
    by (rule conjunct1)
  with r l a b c show ?thesis
    by blast
qed


section \<open>When the status becomes \<^verbatim>\<open>running\<close>, and a spawn that fails\<close>

lemma broadcast_improved_fields [simp]:
  "heap (broadcast_improved s runId d) = heap s"
  "fs (broadcast_improved s runId d) = fs s"
  "runs (broadcast_improved s runId d) = runs s"
  "procs (broadcast_improved s runId d) = procs s"
  "awaiting (broadcast_improved s runId d) = awaiting s"
  "clients (broadcast_improved s runId d) = clients s"
  "timers (broadcast_improved s runId d) = timers s"
  "sent (broadcast_improved s runId d) = sent s @ map (\<lambda>client. (client, sse d)) (runClients s runId)"
  by (simp_all add: broadcast_improved_def)

lemma set_status_more_fields [simp]:
  "clients (set_status s a st) = clients s"
  "sent (set_status s a st) = sent s"
  "timers (set_status s a st) = timers s"
  "heap (set_status s a st) = (heap s)[a := (heap s ! a)\<lparr> status := st \<rparr>]"
  by (simp_all add: set_status_def)

lemma runClients_clients: "clients s = clients t \<Longrightarrow> runClients s runId = runClients t runId"
  by (simp add: runClients_def)

lemma onError_improved_effect:
  "heap (onError_improved s pid msg)
     = (heap s)[prun (procs s ! pid) := (heap s ! prun (procs s ! pid))\<lparr> status := Failed \<rparr>]"
  "fs (onError_improved s pid msg) = fs s"
  "runs (onError_improved s pid msg) = runs s"
  "procs (onError_improved s pid msg) = procs s"
  "clients (onError_improved s pid msg) = clients s"
  "sent (onError_improved s pid msg)
     = sent s @ map (\<lambda>client. (client, sse (''ERROR: '' @ msg))) (runClients s (prunId (procs s ! pid)))"
  by (simp_all add: onError_improved_def Let_def runClients_def)

lemma make_dirs_status [simp]: "make_dirs (r\<lparr> status := st \<rparr>) = make_dirs r"
  by (simp add: make_dirs_def videosFolder_def screenshotsFolder_def resultsFolder_def)

lemma runCypress_begin_improved_effect:
  assumes "get_run s runId = Some a" "a < length (heap s)"
  shows "procs (runCypress_begin_improved cfg s runId) = procs s"
    and "status (heap (runCypress_begin_improved cfg s runId) ! a)
           = (if snd (run_ops (make_dirs (heap s ! a)) (fs s)) = None then Running else Failed)"
  using assms
  by (auto simp: runCypress_begin_improved_def Let_def split: option.splits)

lemma onClose_improved_done:
  assumes "onClose_improved s pid (Some c) = (s', None)" "prun (procs s ! pid) < length (heap s)"
  shows "status (heap s' ! prun (procs s ! pid)) = (if c = 0 then Done else Failed)"
    and "recorded_exit s' (prun (procs s ! pid)) = Some (toString c)"
    and "sent s' = sent s @ map (\<lambda>client. (client,
           sse (''RUN_DONE status='' @ status_str (if c = 0 then Done else Failed)
                @ '' code='' @ toString c))) (runClients s (prunId (procs s ! pid)))"
proof -
  let ?a = "prun (procs s ! pid)"
  let ?st = "if c = 0 then Done else Failed"
  let ?r = "(heap s ! ?a)\<lparr> status := ?st \<rparr>"
  have r: "heap (set_status s ?a ?st) ! ?a = ?r"
    using assms(2) by simp
  obtain f where w: "writeFileSync (fs s) (runPath (heap s ! ?a) @ [''exit-code.txt'']) (toString c) = Inr f"
    using assms(1) r
    by (cases "writeFileSync (fs s) (runPath (heap s ! ?a) @ [''exit-code.txt'']) (toString c)")
       (simp_all add: onClose_improved_def Let_def)
  have s': "s' = (broadcast_improved
        ((set_status s ?a ?st)\<lparr> procs := (procs s)[pid := (procs s ! pid)\<lparr> palive := False \<rparr>], fs := f \<rparr>)
        (prunId (procs s ! pid))
        (''RUN_DONE status='' @ status_str ?st @ '' code='' @ toString c))
      \<lparr> timers := timers s @ [prunId (procs s ! pid)] \<rparr>"
    using assms(1) r w by (simp add: onClose_improved_def Let_def)
  show "status (heap s' ! ?a) = ?st"
    using assms(2) by (simp add: s')
  have "lookup f (runPath (heap s ! ?a) @ [''exit-code.txt'']) = Inr (File (toString c))"
    using w by (rule writeFileSync_lookup)
  then show "recorded_exit s' ?a = Some (toString c)"
    using assms(2) by (simp add: s' recorded_exit_def)
  show "sent s' = sent s @ map (\<lambda>client. (client,
           sse (''RUN_DONE status='' @ status_str ?st @ '' code='' @ toString c)))
           (runClients s (prunId (procs s ! pid)))"
    by (simp add: s' runClients_def)
qed

lemma runCypress_spawn_improved_made:
  "heap (runCypress_spawn_improved s i None) = heap s"
  "i < length (awaiting s) \<Longrightarrow>
     length (procs (runCypress_spawn_improved s i None)) = Suc (length (procs s))"
  by (simp_all add: runCypress_spawn_improved_def Let_def)

lemma runCypress_spawn_improved_thrown:
  assumes "i < length (awaiting s)" "trun (awaiting s ! i) < length (heap s)"
  shows "status (heap (runCypress_spawn_improved s i (Some e)) ! trun (awaiting s ! i)) = Failed"
    and "procs (runCypress_spawn_improved s i (Some e)) = procs s"
    and "fs (runCypress_spawn_improved s i (Some e)) = fs s"
    and "timers (runCypress_spawn_improved s i (Some e)) = timers s"
    and "recorded_exit (runCypress_spawn_improved s i (Some e)) (trun (awaiting s ! i))
           = recorded_exit s (trun (awaiting s ! i))"
    and "sent (runCypress_spawn_improved s i (Some e))
           = sent s @ map (\<lambda>client. (client, sse (''ERROR: '' @ message e)))
               (runClients s (trunId (awaiting s ! i)))"
  using assms
  by (simp_all add: runCypress_spawn_improved_def Let_def set_status_def recorded_exit_def
        runClients_def)

text \<open>
  Claim C3, as the code has it. \<^verbatim>\<open>runCypress\<close> writes \<^verbatim>\<open>'running'\<close> when it begins,
  in both servers, and spawns nothing then (in \<^verbatim>\<open>index-improved.js\<close> the status is
  \<^verbatim>\<open>'failed'\<close> already when a directory cannot be made). The later step that spawns the
  process writes no status in \<^verbatim>\<open>index.js\<close>, whether \<^verbatim>\<open>spawn\<close> throws or not, and none
  in \<^verbatim>\<open>index-improved.js\<close> when the process is made. In \<^verbatim>\<open>index-improved.js\<close> a
  spawn can fail in two ways. When the lookup or \<^verbatim>\<open>spawn\<close> itself throws, the
  \<^verbatim>\<open>catch\<close> sets the status of the waiting run to \<^verbatim>\<open>'failed'\<close> and sends each
  subscriber the line \<^verbatim>\<open>ERROR: <reason>\<close> and nothing after it: no process exists, the
  disk and the exit code on record are as before, and no timer that ends the streams is
  set. When the process is made and emits \<^verbatim>\<open>'error'\<close> and then \<^verbatim>\<open>'close'\<close> with a
  code that is not 0, and the listeners run to their end: the \<^verbatim>\<open>'error'\<close> listener sets
  the status to \<^verbatim>\<open>'failed'\<close> and leaves the disk alone; after \<^verbatim>\<open>'close'\<close> the status
  is \<^verbatim>\<open>'failed'\<close>, the code is on record, and each subscriber of the run has been sent
  the line \<^verbatim>\<open>ERROR: <reason>\<close> and after it the line
  \<^verbatim>\<open>RUN_DONE status=failed code=<code>\<close>.
\<close>

theorem running_set_before_spawn:
  assumes "get_run s runId = Some a" and "a < length (heap s)"
    and "j < length (awaiting u)" and "k = trun (awaiting u ! j)" and "k < length (heap u)"
    and "b = prun (procs t ! pid)" and "b < length (heap t)"
    and "c \<noteq> 0"
    and "onClose_improved (onError_improved t pid msg) pid (Some c) = (t', None)"
  shows "status (heap (fst (runCypress_begin_index s runId)) ! a) = Running
       \<and> procs (fst (runCypress_begin_index s runId)) = procs s
       \<and> status (heap (runCypress_begin_improved cfg s runId) ! a)
           = (if snd (run_ops (make_dirs (heap s ! a)) (fs s)) = None then Running else Failed)
       \<and> procs (runCypress_begin_improved cfg s runId) = procs s
       \<and> heap (fst (runCypress_spawn_index s i thrown)) = heap s
       \<and> heap (runCypress_spawn_improved s i None) = heap s
       \<and> length (procs (runCypress_spawn_improved u j None)) = Suc (length (procs u))
       \<and> status (heap (runCypress_spawn_improved u j (Some e)) ! k) = Failed
       \<and> procs (runCypress_spawn_improved u j (Some e)) = procs u
       \<and> fs (runCypress_spawn_improved u j (Some e)) = fs u
       \<and> recorded_exit (runCypress_spawn_improved u j (Some e)) k = recorded_exit u k
       \<and> timers (runCypress_spawn_improved u j (Some e)) = timers u
       \<and> sent (runCypress_spawn_improved u j (Some e))
           = sent u @ map (\<lambda>client. (client, sse (''ERROR: '' @ message e)))
               (runClients u (trunId (awaiting u ! j)))
       \<and> status (heap (onError_improved t pid msg) ! b) = Failed
       \<and> fs (onError_improved t pid msg) = fs t
       \<and> status (heap t' ! b) = Failed
       \<and> recorded_exit t' b = Some (toString c)
       \<and> sent t' = sent t
           @ map (\<lambda>client. (client, sse (''ERROR: '' @ msg))) (runClients t (prunId (procs t ! pid)))
           @ map (\<lambda>client. (client, sse (''RUN_DONE status=failed code='' @ toString c)))
               (runClients t (prunId (procs t ! pid)))"
proof -
  let ?t1 = "onError_improved t pid msg"
  have i1: "status (heap (fst (runCypress_begin_index s runId)) ! a) = Running"
    using runCypress_begin_index_core(1)[OF assms(1,2)] assms(2) by simp
  have i2: "procs (fst (runCypress_begin_index s runId)) = procs s"
    using assms(1,2) by (rule runCypress_begin_index_core(2))
  note m = runCypress_begin_improved_effect[OF assms(1,2), of cfg]
  have sp: "heap (fst (runCypress_spawn_index s i thrown)) = heap s"
    by (cases thrown) (simp_all add: runCypress_spawn_index_def Let_def)
  have sp': "heap (runCypress_spawn_improved s i None) = heap s"
    by (rule runCypress_spawn_improved_made(1))
  have sp'': "length (procs (runCypress_spawn_improved u j None)) = Suc (length (procs u))"
    using assms(3) by (rule runCypress_spawn_improved_made(2))
  have kl: "trun (awaiting u ! j) < length (heap u)"
    using assms(4,5) by simp
  note th = runCypress_spawn_improved_thrown[OF assms(3) kl, of e, folded assms(4)]
  have e1: "status (heap ?t1 ! b) = Failed"
    using assms(6,7) by (simp add: onError_improved_effect)
  have e2: "fs ?t1 = fs t"
    by (simp add: onError_improved_effect)
  have p: "procs ?t1 = procs t" and cl: "runClients ?t1 (prunId (procs t ! pid)) = runClients t (prunId (procs t ! pid))"
    by (simp_all add: onError_improved_effect runClients_def)
  have l: "prun (procs ?t1 ! pid) < length (heap ?t1)"
    using assms(6,7) by (simp add: onError_improved_effect)
  note d = onClose_improved_done[OF assms(9) l]
  have c1: "status (heap t' ! b) = Failed"
    using d(1) assms(6,8) p by simp
  have c2: "recorded_exit t' b = Some (toString c)"
    using d(2) assms(6) p by simp
  have c3: "sent t' = sent t
           @ map (\<lambda>client. (client, sse (''ERROR: '' @ msg))) (runClients t (prunId (procs t ! pid)))
           @ map (\<lambda>client. (client, sse (''RUN_DONE status=failed code='' @ toString c)))
               (runClients t (prunId (procs t ! pid)))"
    using d(3) assms(8) p cl by (simp add: onError_improved_effect status_str_def)
  from i1 i2 m sp sp' sp'' th e1 e2 c1 c2 c3 show ?thesis
    by blast
qed


theorem running_set_before_spawn_witness:
  "get_run (register_run (init_server (Dir [])) ''r1'' 1000 None ''login.cy.js''
       [''app'', ''runs'', ''r1''] [''app'', ''runs'', ''r1'', ''work'']) ''r1'' = Some 0
   \<and> 0 < length (awaiting one_waiting) \<and> 0 = trun (awaiting one_waiting ! 0)
   \<and> 0 < length (heap one_waiting) \<and> status (heap one_waiting ! 0) = Running
   \<and> status (heap (runCypress_spawn_improved one_waiting 0
        (Some (SpawnError ''spawn E2BIG''))) ! 0) = Failed
   \<and> procs (runCypress_spawn_improved one_waiting 0 (Some (SpawnError ''spawn E2BIG''))) = []
   \<and> recorded_exit (runCypress_spawn_improved one_waiting 0
        (Some (SpawnError ''spawn E2BIG''))) 0 = None
   \<and> timers (runCypress_spawn_improved one_waiting 0 (Some (SpawnError ''spawn E2BIG''))) = []
   \<and> sent (runCypress_spawn_improved one_waiting 0 (Some (SpawnError ''spawn E2BIG'')))
       = [(7, sse ''ERROR: spawn E2BIG'')]
   \<and> length (procs (runCypress_spawn_improved one_waiting 0 None)) = 1
   \<and> 0 = prun (procs one_running ! 0) \<and> 0 < length (heap one_running) \<and> (- 2 :: int) \<noteq> 0
   \<and> snd (onClose_improved (onError_improved one_running 0 ''spawn cypress ENOENT'') 0 (Some (- 2))) = None
   \<and> status (heap (fst (onClose_improved (onError_improved one_running 0 ''spawn cypress ENOENT'')
        0 (Some (- 2)))) ! 0) = Failed
   \<and> recorded_exit (fst (onClose_improved (onError_improved one_running 0 ''spawn cypress ENOENT'')
        0 (Some (- 2)))) 0 = Some ''-2''
   \<and> sent (fst (onClose_improved (onError_improved one_running 0 ''spawn cypress ENOENT'')
        0 (Some (- 2))))
       = [(7, sse ''ERROR: spawn cypress ENOENT''), (7, sse ''RUN_DONE status=failed code=-2'')]"
proof -
  let ?s = "register_run (init_server (Dir [])) ''r1'' 1000 None ''login.cy.js''
       [''app'', ''runs'', ''r1''] [''app'', ''runs'', ''r1'', ''work'']"
  let ?t' = "fst (onClose_improved (onError_improved one_running 0 ''spawn cypress ENOENT'') 0 (Some (- 2)))"
  let ?e = "SpawnError ''spawn E2BIG''"
  let ?u' = "runCypress_spawn_improved one_waiting 0 (Some ?e)"
  have g: "get_run ?s ''r1'' = Some 0"
    by code_simp
  have l: "0 < length (heap ?s)"
    by code_simp
  have uj: "0 < length (awaiting one_waiting)"
    by code_simp
  have uk: "0 = trun (awaiting one_waiting ! 0)"
    by code_simp
  have ul: "0 < length (heap one_waiting)"
    by code_simp
  have ur: "status (heap one_waiting ! 0) = Running"
    by code_simp
  have b: "0 = prun (procs one_running ! 0)"
    by code_simp
  have bl: "0 < length (heap one_running)"
    by code_simp
  have c: "(- 2 :: int) \<noteq> 0"
    by simp
  have n: "snd (onClose_improved (onError_improved one_running 0 ''spawn cypress ENOENT'') 0 (Some (- 2))) = None"
    by code_simp
  then have fin: "onClose_improved (onError_improved one_running 0 ''spawn cypress ENOENT'') 0 (Some (- 2))
      = (?t', None)"
    by (simp add: prod_eq_iff)
  have ts: "toString (- 2) = ''-2''"
    by code_simp
  have rc: "runClients one_running (prunId (procs one_running ! 0)) = [7]"
    by code_simp
  have se: "sent one_running = []"
    by code_simp
  have up: "procs one_waiting = []" and ut: "timers one_waiting = []" and us: "sent one_waiting = []"
    by code_simp+
  have ux: "recorded_exit one_waiting 0 = None"
    by code_simp
  have uc: "runClients one_waiting (trunId (awaiting one_waiting ! 0)) = [7]"
    by code_simp
  have me: "message ?e = ''spawn E2BIG''"
    by (simp add: message_def)
  note w = running_set_before_spawn[OF g l uj uk ul b bl c fin, of keep_one 0 None ?e]
  from w have v1: "status (heap ?u' ! 0) = Failed"
    by blast
  from w have v2: "procs ?u' = []"
    unfolding up by blast
  from w have v3: "recorded_exit ?u' 0 = None"
    unfolding ux by blast
  from w have v4: "timers ?u' = []"
    unfolding ut by blast
  from w have "sent ?u' = sent one_waiting @ map (\<lambda>client. (client, sse (''ERROR: '' @ message ?e)))
               (runClients one_waiting (trunId (awaiting one_waiting ! 0)))"
    by blast
  then have v5: "sent ?u' = [(7, sse ''ERROR: spawn E2BIG'')]"
    by (simp add: us uc me)
  from w have "length (procs (runCypress_spawn_improved one_waiting 0 None)) = Suc (length (procs one_waiting))"
    by blast
  then have v6: "length (procs (runCypress_spawn_improved one_waiting 0 None)) = 1"
    by (simp add: up)
  from w have w1: "status (heap ?t' ! 0) = Failed"
    by blast
  from w have w2: "recorded_exit ?t' 0 = Some ''-2''"
    unfolding ts by blast
  from w have "sent ?t' = sent one_running
           @ map (\<lambda>client. (client, sse (''ERROR: '' @ ''spawn cypress ENOENT'')))
               (runClients one_running (prunId (procs one_running ! 0)))
           @ map (\<lambda>client. (client, sse (''RUN_DONE status=failed code='' @ toString (- 2))))
               (runClients one_running (prunId (procs one_running ! 0)))"
    by blast
  then have w3: "sent ?t' = [(7, sse ''ERROR: spawn cypress ENOENT''),
                             (7, sse ''RUN_DONE status=failed code=-2'')]"
    by (simp add: rc se ts)
  from g uj uk ul ur v1 v2 v3 v4 v5 v6 b bl c n w1 w2 w3 show ?thesis
    by blast
qed

text \<open>
  Claim C3 as stated does not hold. After the upload of a spec file to \<^verbatim>\<open>index.js\<close>
  the run is \<^verbatim>\<open>'running'\<close> and no process has been spawned: \<^verbatim>\<open>runCypress\<close> waits for
  the lookup of the configuration file. The same holds when \<^verbatim>\<open>runCypress\<close> of
  \<^verbatim>\<open>index-improved.js\<close> begins for a queued run. And when the spawn fails there, the
  \<^verbatim>\<open>'error'\<close> listener takes the run from \<^verbatim>\<open>'running'\<close>, not from \<^verbatim>\<open>'queued'\<close>, to
  \<^verbatim>\<open>'failed'\<close> and records no exit code; when \<^verbatim>\<open>spawn\<close> itself throws, the run goes
  from \<^verbatim>\<open>'running'\<close> to \<^verbatim>\<open>'failed'\<close> too, the subscriber is sent the line
  \<^verbatim>\<open>ERROR: <reason>\<close> and no termination marker: no process exists that could close,
  and no timer is set.
\<close>

theorem running_before_spawn:
  "map status (heap (run_events no_zip (init_server (Dir [])) [upload_spec])) = [Running]
   \<and> procs (run_events no_zip (init_server (Dir [])) [upload_spec]) = []
   \<and> map status (heap (runCypress_begin_improved keep_one
        (register_run (init_server (Dir [])) ''r1'' 1000 None ''login.cy.js''
           [''app'', ''runs'', ''r1''] [''app'', ''runs'', ''r1'', ''work'']) ''r1'')) = [Running]
   \<and> procs (runCypress_begin_improved keep_one
        (register_run (init_server (Dir [])) ''r1'' 1000 None ''login.cy.js''
           [''app'', ''runs'', ''r1''] [''app'', ''runs'', ''r1'', ''work'']) ''r1'') = []
   \<and> status (heap one_running ! 0) = Running
   \<and> status (heap (onError_improved one_running 0 ''spawn cypress ENOENT'') ! 0) = Failed
   \<and> recorded_exit (onError_improved one_running 0 ''spawn cypress ENOENT'') 0 = None
   \<and> status (heap one_waiting ! 0) = Running
   \<and> status (heap (runCypress_spawn_improved one_waiting 0
        (Some (SpawnError ''spawn E2BIG''))) ! 0) = Failed
   \<and> sent (runCypress_spawn_improved one_waiting 0 (Some (SpawnError ''spawn E2BIG'')))
       = [(7, sse ''ERROR: spawn E2BIG'')]
   \<and> procs (runCypress_spawn_improved one_waiting 0 (Some (SpawnError ''spawn E2BIG''))) = []
   \<and> timers (runCypress_spawn_improved one_waiting 0 (Some (SpawnError ''spawn E2BIG''))) = []"
  by code_simp


section \<open>A spawn that fails and the rest of the service\<close>

text \<open>
  Claim C8 at a failed spawn on \<^verbatim>\<open>index.js\<close>: a spec file has been uploaded and its
  process spawned; the process emits \<^verbatim>\<open>'error'\<close>. No listener of the program takes the
  event, so the emitter throws it and nothing catches it.
\<close>

theorem spawn_error_unhandled_index:
  "live (run_events no_zip (init_server (Dir [])) [upload_spec, Resume 0 None]) 0
   \<and> snd (step_index no_zip (run_events no_zip (init_server (Dir [])) [upload_spec, Resume 0 None])
            (ProcError 0 ''spawn cypress ENOENT''))
       = Some (UnhandledErrorEvent ''spawn cypress ENOENT'')"
  by code_simp


text \<open>\<^verbatim>\<open>index-improved.js\<close> has the listener: a failed spawn of one run leaves every
  other run object, the registry, the subscriber lists and the disk as they were, and
  writes to the subscribers of the failing run only.\<close>

lemma onError_improved_frame:
  assumes "b \<noteq> prun (procs s ! pid)"
  shows "heap (onError_improved s pid msg) ! b = heap s ! b"
    and "runs (onError_improved s pid msg) = runs s"
    and "clients (onError_improved s pid msg) = clients s"
    and "fs (onError_improved s pid msg) = fs s"
    and "\<exists>new. sent (onError_improved s pid msg) = sent s @ new
           \<and> fst ` set new \<subseteq> set (runClients s (prunId (procs s ! pid)))"
  using assms
  by (auto simp: onError_improved_effect)

end
